theory Spec2Isabelle
  imports Main
begin
section \<open>Characters and the character classes of Python\<close>

text \<open>
  A Python \<^verbatim>\<open>str\<close> is a sequence of Unicode code points: a character is its code point,
  a natural number, and a text is a list of them, so that \<^verbatim>\<open>len\<close> and slices count
  characters.  \<open>ascii\<close> writes a text of ASCII characters as a string literal.
\<close>

type_synonym ustring = "nat list"

definition ascii :: "string \<Rightarrow> ustring" where
  "ascii s = map of_char s"

definition newline :: nat where
  "newline = 10"

definition blank :: nat where
  "blank = 32"

definition star :: nat where
  "star = 42"

definition hyphen :: nat where
  "hyphen = 45"

definition full_stop :: nat where
  "full_stop = 46"

definition comma :: nat where
  "comma = 44"

text \<open>
  The tables of the Unicode database that the \<^verbatim>\<open>re\<close> module and \<^verbatim>\<open>str\<close> consult are not
  part of the program; they are a parameter of every function that uses them:
  \<open>is_word\<close> is the class \<^verbatim>\<open>\w\<close> (which also decides \<^verbatim>\<open>\b\<close>), \<open>is_space\<close> is the class
  \<^verbatim>\<open>\s\<close> and the whitespace of \<^verbatim>\<open>str.strip()\<close>, and \<open>ignore_case U k c\<close> says that the
  pattern character \<open>k\<close> matches the subject character \<open>c\<close> under \<^verbatim>\<open>re.IGNORECASE\<close>.
\<close>

record unicode =
  is_word :: "nat \<Rightarrow> bool"
  is_space :: "nat \<Rightarrow> bool"
  ignore_case :: "nat \<Rightarrow> nat \<Rightarrow> bool"

text \<open>
  What is known of these tables on the ASCII range: \<^verbatim>\<open>\w\<close> is \<^verbatim>\<open>[a-zA-Z0-9_]\<close> there,
  and the whitespace characters are the code points 9 to 13 and 28 to 32.
\<close>

definition ascii_word :: "nat \<Rightarrow> bool" where
  "ascii_word n = ((48 \<le> n \<and> n \<le> 57) \<or> (65 \<le> n \<and> n \<le> 90) \<or> (97 \<le> n \<and> n \<le> 122) \<or> n = 95)"

definition ascii_space :: "nat \<Rightarrow> bool" where
  "ascii_space n = ((9 \<le> n \<and> n \<le> 13) \<or> (28 \<le> n \<and> n \<le> 32))"

definition agrees_on_ascii :: "unicode \<Rightarrow> bool" where
  "agrees_on_ascii U =
     (\<forall>c<128. is_word U c = ascii_word c \<and> is_space U c = ascii_space c)"

text \<open>\<^verbatim>\<open>str.strip()\<close>, \<^verbatim>\<open>str.endswith\<close> and \<^verbatim>\<open>str.rstrip(".")\<close>.\<close>

definition strip :: "unicode \<Rightarrow> ustring \<Rightarrow> ustring" where
  "strip U s = rev (dropWhile (is_space U) (rev (dropWhile (is_space U) s)))"

definition endswith :: "ustring \<Rightarrow> ustring \<Rightarrow> bool" where
  "endswith s suf = (length suf \<le> length s \<and> drop (length s - length suf) s = suf)"

definition rstrip_dots :: "ustring \<Rightarrow> ustring" where
  "rstrip_dots s = rev (dropWhile (\<lambda>c. c = full_stop) (rev s))"

text \<open>
  \<^verbatim>\<open>path.lower()\<close>, as the suffix test of \<^verbatim>\<open>on_save_result\<close> needs it: \<^verbatim>\<open>str.lower\<close> maps
  \<^verbatim>\<open>A-Z\<close> to \<^verbatim>\<open>a-z\<close> and maps no other character to a text that holds one of the
  characters of \<^verbatim>\<open>.docx\<close>, so the fold of \<^verbatim>\<open>A-Z\<close> decides \<^verbatim>\<open>endswith(".docx")\<close> as
  \<^verbatim>\<open>str.lower\<close> does.
\<close>

definition lower :: "nat \<Rightarrow> nat" where
  "lower c = (if 65 \<le> c \<and> c \<le> 90 then c + 32 else c)"

definition lower_str :: "ustring \<Rightarrow> ustring" where
  "lower_str s = map lower s"

section \<open>Whole-word keyword patterns\<close>

text \<open>
  \<^verbatim>\<open>paragraph_matches\<close> and \<^verbatim>\<open>bold_keywords\<close> build the pattern
  \<^verbatim>\<open>\b + re.escape(kw) + \b\<close> with \<^verbatim>\<open>re.IGNORECASE\<close>.  \<^verbatim>\<open>re.escape\<close> makes the keyword a
  literal, so the pattern is: a word boundary, the characters of the keyword, each
  matched without regard to case, a word boundary.  A position of the subject is
  described by the character before it (\<open>None\<close> at the start of the string) and the
  rest of the string.
\<close>

fun is_word_opt :: "unicode \<Rightarrow> nat option \<Rightarrow> bool" where
  "is_word_opt U None = False"
| "is_word_opt U (Some c) = is_word U c"

fun head_opt :: "ustring \<Rightarrow> nat option" where
  "head_opt [] = None"
| "head_opt (c # cs) = Some c"

text \<open>\<^verbatim>\<open>\b\<close>: exactly one of the two neighbours of the position is a word character.\<close>

definition word_boundary :: "unicode \<Rightarrow> nat option \<Rightarrow> nat option \<Rightarrow> bool" where
  "word_boundary U l r = (is_word_opt U l \<noteq> is_word_opt U r)"

text \<open>The escaped keyword, matched as a literal prefix under \<^verbatim>\<open>IGNORECASE\<close>.\<close>

fun literal_prefix :: "unicode \<Rightarrow> ustring \<Rightarrow> ustring \<Rightarrow> bool" where
  "literal_prefix U [] s = True"
| "literal_prefix U (k # ks) [] = False"
| "literal_prefix U (k # ks) (c # cs) = (ignore_case U k c \<and> literal_prefix U ks cs)"

text \<open>
  The whole pattern matched at one position: \<open>prev\<close> is the character before the
  position, \<open>s\<close> the subject from the position on.  The character before the closing
  boundary is the last matched one (the keyword is never empty where this is used).
\<close>

definition match_here :: "unicode \<Rightarrow> ustring \<Rightarrow> nat option \<Rightarrow> ustring \<Rightarrow> bool" where
  "match_here U kw prev s =
     (word_boundary U prev (head_opt s) \<and> literal_prefix U kw s \<and>
      word_boundary U (if kw = [] then prev else Some (last (take (length kw) s)))
                      (head_opt (drop (length kw) s)))"

text \<open>\<^verbatim>\<open>re.search\<close>: is there a position, scanning from the left, where the pattern matches.\<close>

fun re_search :: "unicode \<Rightarrow> ustring \<Rightarrow> nat option \<Rightarrow> ustring \<Rightarrow> bool" where
  "re_search U kw prev [] = match_here U kw prev []"
| "re_search U kw prev (c # cs) = (match_here U kw prev (c # cs) \<or> re_search U kw (Some c) cs)"

text \<open>
  \<^verbatim>\<open>pattern.sub(replacer, paragraph)\<close> with \<^verbatim>\<open>replacer = "*" + match + "*"\<close>: the leftmost
  match is replaced and the scan resumes behind it, so matches never overlap.  The
  keyword is not empty here (\<^verbatim>\<open>bold_keywords\<close> skips an empty one), so a match consumes
  the first character and \<open>length kw - 1\<close> more.
\<close>

function re_sub_bold :: "unicode \<Rightarrow> ustring \<Rightarrow> nat option \<Rightarrow> ustring \<Rightarrow> ustring" where
  "re_sub_bold U kw prev [] = []"
| "re_sub_bold U kw prev (c # cs) =
     (if match_here U kw prev (c # cs)
      then [star] @ take (length kw) (c # cs) @ [star] @
           re_sub_bold U kw (Some (last (c # take (length kw - 1) cs))) (drop (length kw - 1) cs)
      else c # re_sub_bold U kw (Some c) cs)"
  by pat_completeness auto
termination
  by (relation "measure (\<lambda>(U, kw, prev, s). length s)") auto

section \<open>The helper functions of the module\<close>

text \<open>
  \<^verbatim>\<open>paragraph_matches\<close> (lines 41-48): the first non-empty keyword that is found decides;
  an empty keyword is skipped.
\<close>

fun paragraph_matches :: "unicode \<Rightarrow> ustring \<Rightarrow> ustring list \<Rightarrow> bool" where
  "paragraph_matches U paragraph [] = False"
| "paragraph_matches U paragraph (kw # keywords) =
     (if kw = [] then paragraph_matches U paragraph keywords
      else if re_search U kw None paragraph then True
      else paragraph_matches U paragraph keywords)"

text \<open>
  \<^verbatim>\<open>bold_keywords\<close> (lines 50-58): the keywords are substituted one after another, each
  on the text the previous ones have already marked.
\<close>

fun bold_keywords :: "unicode \<Rightarrow> ustring \<Rightarrow> ustring list \<Rightarrow> ustring" where
  "bold_keywords U paragraph [] = paragraph"
| "bold_keywords U paragraph (kw # keywords) =
     (if kw = [] then bold_keywords U paragraph keywords
      else bold_keywords U (re_sub_bold U kw None paragraph) keywords)"

text \<open>\<^verbatim>\<open>sep.join(xs)\<close>.\<close>

fun join :: "ustring \<Rightarrow> ustring list \<Rightarrow> ustring" where
  "join sep [] = []"
| "join sep [x] = x"
| "join sep (x # y # xs) = x @ sep @ join sep (y # xs)"

text \<open>
  The word \<^verbatim>\<open>Zrodlo\<close> of the source header with its Polish letters, the code points
  377, 243 and 322.
\<close>

definition zrodlo :: ustring where
  "zrodlo = [377, 114, 243, 100, 322, 111]"

text \<open>
  \<^verbatim>\<open>build_result_text_with_sources\<close> (lines 60-65): a header line in double asterisks, a
  blank line, the marked paragraph and a line break for each entry, the entries joined
  by a rule.
\<close>

definition result_entry :: "unicode \<Rightarrow> ustring list \<Rightarrow> ustring \<times> ustring \<Rightarrow> ustring" where
  "result_entry U kws e =
     ascii ''**'' @ zrodlo @ ascii '': '' @ fst e @ ascii ''**'' @ [newline, newline] @
     bold_keywords U (snd e) kws @ [newline]"

definition build_result_text_with_sources ::
  "unicode \<Rightarrow> (ustring \<times> ustring) list \<Rightarrow> ustring list \<Rightarrow> ustring" where
  "build_result_text_with_sources U matching_paragraphs kws =
     join ([newline] @ ascii ''---'' @ [newline]) (map (result_entry U kws) matching_paragraphs)"

text \<open>Pieces of a split are built from the left: a character joins the first piece.\<close>

fun cons_first :: "nat \<Rightarrow> ustring list \<Rightarrow> ustring list" where
  "cons_first c [] = [[c]]"
| "cons_first c (x # xs) = (c # x) # xs"

text \<open>
  \<^verbatim>\<open>re.sub(r"\*\*(.*?)\*\*", r"\1", text)\<close> (line 68).  \<open>closing_stars\<close> is the lazy group
  behind an opening \<^verbatim>\<open>**\<close>: the number of characters up to the first \<^verbatim>\<open>**\<close>, none of
  them a line break (\<^verbatim>\<open>.\<close> does not match one); \<open>None\<close> when a line break or the end of
  the text comes first.  A match is replaced by its group, and the scan resumes behind
  the closing asterisks.
\<close>

fun closing_stars :: "ustring \<Rightarrow> nat option" where
  "closing_stars [] = None"
| "closing_stars (c # cs) =
     (if c = star \<and> head_opt cs = Some star then Some 0
      else if c = newline then None
      else map_option Suc (closing_stars cs))"

function sub_double_stars :: "ustring \<Rightarrow> ustring" where
  "sub_double_stars [] = []"
| "sub_double_stars (c # cs) =
     (if c = star \<and> head_opt cs = Some star
      then (case closing_stars (tl cs) of
              Some n \<Rightarrow> take n (tl cs) @ sub_double_stars (drop (n + 2) (tl cs))
            | None \<Rightarrow> c # sub_double_stars cs)
      else c # sub_double_stars cs)"
  by pat_completeness auto
termination
  by (relation "measure length") auto

text \<open>\<^verbatim>\<open>text.split("\n\n")\<close> (line 70).\<close>

fun split_blank :: "ustring \<Rightarrow> ustring list" where
  "split_blank [] = [[]]"
| "split_blank [c] = [[c]]"
| "split_blank (a # b # cs) =
     (if a = newline \<and> b = newline then [] # split_blank cs
      else cons_first a (split_blank (b # cs)))"

text \<open>
  \<^verbatim>\<open>save_as_docx\<close> (lines 67-73).  The document is the list of the texts given to
  \<^verbatim>\<open>add_paragraph\<close>, which is what reading the saved file back returns; \<^verbatim>\<open>doc.save\<close>
  belongs to the caller's model below.
\<close>

definition save_as_docx :: "unicode \<Rightarrow> ustring \<Rightarrow> ustring list" where
  "save_as_docx U text =
     (let clean_text = sub_double_stars text
      in map (strip U) (filter (\<lambda>paragraph. strip U paragraph \<noteq> []) (split_blank clean_text)))"

text \<open>
  \<^verbatim>\<open>shorten_text\<close> (lines 75-79).  \<open>slice_to n\<close> is the slice \<^verbatim>\<open>[:n]\<close>, which counts from
  the end when \<open>n\<close> is negative.
\<close>

definition slice_to :: "int \<Rightarrow> 'a list \<Rightarrow> 'a list" where
  "slice_to n xs = (if 0 \<le> n then take (nat n) xs else take (length xs - nat (- n)) xs)"

definition shorten_text :: "ustring \<Rightarrow> int \<Rightarrow> ustring" where
  "shorten_text text max_len =
     (if int (length text) \<le> max_len then text else slice_to (max_len - 3) text @ ascii ''...'')"

section \<open>Loading a PDF\<close>

text \<open>\<^verbatim>\<open>re.sub(r"-\n", "", text)\<close> (line 32).\<close>

fun sub_hyphen_newline :: "ustring \<Rightarrow> ustring" where
  "sub_hyphen_newline (a # b # cs) =
     (if a = hyphen \<and> b = newline then sub_hyphen_newline cs
      else a # sub_hyphen_newline (b # cs))"
| "sub_hyphen_newline cs = cs"

text \<open>\<^verbatim>\<open>re.sub(r"\n+", " ", text)\<close> (line 33): each maximal run of line breaks becomes a space.\<close>

function sub_newlines :: "ustring \<Rightarrow> ustring" where
  "sub_newlines [] = []"
| "sub_newlines (c # cs) =
     (if c = newline then blank # sub_newlines (dropWhile (\<lambda>d. d = newline) cs)
      else c # sub_newlines cs)"
  by pat_completeness auto
termination
  by (relation "measure length") (auto simp: less_Suc_eq_le length_dropWhile_le)

text \<open>
  \<^verbatim>\<open>re.sub(r"\s{2,}", " ", text)\<close> (line 34): each maximal run of two or more whitespace
  characters becomes a space; a single whitespace character is left as it is.
\<close>

function sub_spaces :: "unicode \<Rightarrow> ustring \<Rightarrow> ustring" where
  "sub_spaces U [] = []"
| "sub_spaces U [c] = [c]"
| "sub_spaces U (c # d # ds) =
     (if is_space U c \<and> is_space U d then blank # sub_spaces U (dropWhile (is_space U) ds)
      else c # sub_spaces U (d # ds))"
  by pat_completeness auto
termination
  by (relation "measure (\<lambda>(U, s). length s)") (auto intro: le_less_trans[OF length_dropWhile_le])

text \<open>
  \<^verbatim>\<open>re.split(r"(?<=[.!?])\s+", text)\<close> (line 35): the text is cut at each maximal run of
  whitespace that follows one of \<^verbatim>\<open>. ! ?\<close>; the run itself is dropped.  \<open>prev\<close> is the
  character before the position, and \<open>after_sentence_end\<close> the look-behind on it.
\<close>

definition is_sentence_end :: "nat \<Rightarrow> bool" where
  "is_sentence_end c = (c \<in> set (ascii ''.!?''))"

definition after_sentence_end :: "nat option \<Rightarrow> bool" where
  "after_sentence_end prev = (case prev of None \<Rightarrow> False | Some q \<Rightarrow> is_sentence_end q)"

function split_sentences :: "unicode \<Rightarrow> nat option \<Rightarrow> ustring \<Rightarrow> ustring list" where
  "split_sentences U prev [] = [[]]"
| "split_sentences U prev (c # cs) =
     (if is_space U c \<and> after_sentence_end prev
      then [] # split_sentences U (Some (last (c # takeWhile (is_space U) cs)))
                  (dropWhile (is_space U) cs)
      else cons_first c (split_sentences U (Some c) cs))"
  by pat_completeness auto
termination
  by (relation "measure (\<lambda>(U, prev, s). length s)") (auto simp: less_Suc_eq_le length_dropWhile_le)

text \<open>
  The body of the page loop (lines 31-36).  A page is the result of
  \<^verbatim>\<open>page.extract_text()\<close>: \<open>None\<close> when the page has no text.
\<close>

definition page_pars :: "unicode \<Rightarrow> ustring option \<Rightarrow> ustring list" where
  "page_pars U extracted =
     (let text = (case extracted of None \<Rightarrow> [] | Some t \<Rightarrow> t);
          text = sub_hyphen_newline text;
          text = sub_newlines text;
          text = sub_spaces U text
      in map (strip U) (filter (\<lambda>p. strip U p \<noteq> []) (split_sentences U None text)))"

text \<open>
  What \<^verbatim>\<open>pdfplumber\<close> makes of the bytes: the text of an exception, or the pages in
  order.  \<^verbatim>\<open>extract_text_from_pdf_bytes\<close> (lines 26-39) wraps the exception in a
  \<^verbatim>\<open>RuntimeError\<close> and otherwise extends the result page by page.
\<close>

type_synonym pdf = "ustring + ustring option list"

text \<open>The word \<^verbatim>\<open>Blad\<close> of the error messages, with the code points 322 and 261.\<close>

definition blad :: ustring where
  "blad = [66, 322, 261, 100]"

definition blad_pdf :: ustring where
  "blad_pdf = blad @ ascii '' przy odczycie PDF: ''"

definition extract_text_from_pdf_bytes :: "unicode \<Rightarrow> pdf \<Rightarrow> ustring + ustring list" where
  "extract_text_from_pdf_bytes U pdf_bytes =
     (case pdf_bytes of
        Inl e \<Rightarrow> Inl (blad_pdf @ e)
      | Inr pages \<Rightarrow> Inr (concat (map (page_pars U) pages)))"

section \<open>Loading a web page\<close>

text \<open>
  What \<^verbatim>\<open>requests\<close> and \<^verbatim>\<open>BeautifulSoup\<close> make of the address: the text of the exception
  of \<^verbatim>\<open>requests.get\<close> or \<^verbatim>\<open>raise_for_status\<close>, or the parsed page.  Of the page the code
  reads the text nodes of each \<^verbatim>\<open>p\<close> element and the text nodes of the whole document.
\<close>

record html_page =
  p_elements :: "ustring list list"
  all_strings :: "ustring list"

type_synonym response = "ustring + html_page"

definition blad_strony :: ustring where
  "blad_strony = blad @ ascii '' przy pobieraniu strony: ''"

text \<open>\<^verbatim>\<open>re.split(r"\n{2,}", text)\<close> (line 23).\<close>

function split_blank_lines :: "ustring \<Rightarrow> ustring list" where
  "split_blank_lines [] = [[]]"
| "split_blank_lines (c # cs) =
     (if c = newline \<and> head_opt cs = Some newline
      then [] # split_blank_lines (dropWhile (\<lambda>d. d = newline) cs)
      else cons_first c (split_blank_lines cs))"
  by pat_completeness auto
termination
  by (relation "measure length") (auto simp: less_Suc_eq_le length_dropWhile_le)

text \<open>\<^verbatim>\<open>extract_text_from_url\<close> (lines 13-24).\<close>

definition extract_text_from_url :: "unicode \<Rightarrow> response \<Rightarrow> ustring + ustring list" where
  "extract_text_from_url U r =
     (case r of
        Inl e \<Rightarrow> Inl (blad_strony @ e)
      | Inr soup \<Rightarrow>
          (let paragraphs =
                 map (\<lambda>p. strip U (join [blank] p))
                   (filter (\<lambda>p. concat (filter (\<lambda>t. t \<noteq> []) (map (strip U) p)) \<noteq> [])
                      (p_elements soup))
           in if paragraphs = []
              then Inr (map (strip U) (filter (\<lambda>p. strip U p \<noteq> [])
                         (split_blank_lines (join [newline] (all_strings soup)))))
              else Inr paragraphs))"

section \<open>The application state and its event handlers\<close>

text \<open>
  The variables that \<^verbatim>\<open>main\<close> closes over (\<open>keyword_list\<close> is the variable \<^verbatim>\<open>keywords\<close>).
  A Python \<^verbatim>\<open>dict\<close> is an association list in insertion order with one entry for each
  key; a checkbox is its \<^verbatim>\<open>value\<close>; an entry of \<^verbatim>\<open>filter_column\<close> is the label and the
  tooltip of its container; \<^verbatim>\<open>page.snack_bar\<close> is the text of the notification, \<open>None\<close>
  before the first one.  The two progress widgets are shown and hidden together, and
  their value is the pair of files done and files to do.
\<close>

record shell =
  source_paragraphs :: "(ustring \<times> ustring list) list"
  keyword_list :: "ustring list"
  source_checkboxes :: "(ustring \<times> bool) list"
  filter_column :: "(ustring \<times> ustring) list"
  output_area :: ustring
  snack_bar :: "ustring option"
  progress_visible :: bool
  progress_value :: "nat \<times> nat"

text \<open>The state \<^verbatim>\<open>main\<close> sets up (lines 98-119).\<close>

definition initial_shell :: shell where
  "initial_shell =
     \<lparr> source_paragraphs = [], keyword_list = [], source_checkboxes = [], filter_column = [],
       output_area = [], snack_bar = None, progress_visible = False, progress_value = (0, 1) \<rparr>"

text \<open>\<^verbatim>\<open>d[k] = v\<close> and \<^verbatim>\<open>d.get(k, dflt)\<close>.\<close>

fun dict_set :: "('k \<times> 'v) list \<Rightarrow> 'k \<Rightarrow> 'v \<Rightarrow> ('k \<times> 'v) list" where
  "dict_set [] k v = [(k, v)]"
| "dict_set ((k', v') # d) k v = (if k' = k then (k, v) # d else (k', v') # dict_set d k v)"

definition dict_get :: "('k \<times> 'v) list \<Rightarrow> 'k \<Rightarrow> 'v \<Rightarrow> 'v" where
  "dict_get d k dflt = (case map_of d k of None \<Rightarrow> dflt | Some v \<Rightarrow> v)"

text \<open>
  \<^verbatim>\<open>update_output\<close> (lines 121-135).  The inner loop runs over the paragraphs of one
  source, the outer loop over the selected sources; both carry the list
  \<^verbatim>\<open>matching_paragraphs\<close> and the set \<^verbatim>\<open>seen\<close>.  The key \<^verbatim>\<open>p[:200]\<close> is the first 200
  characters of the paragraph.
\<close>

fun scan_paragraphs ::
  "unicode \<Rightarrow> ustring list \<Rightarrow> ustring \<Rightarrow> ustring list \<Rightarrow>
   (ustring \<times> ustring) list \<times> ustring set \<Rightarrow> (ustring \<times> ustring) list \<times> ustring set" where
  "scan_paragraphs U kws source [] acc = acc"
| "scan_paragraphs U kws source (p # ps) (matching, seen) =
     (if paragraph_matches U p kws
      then (let key = take 200 p
            in if key \<notin> seen
               then scan_paragraphs U kws source ps (matching @ [(source, p)], insert key seen)
               else scan_paragraphs U kws source ps (matching, seen))
      else scan_paragraphs U kws source ps (matching, seen))"

fun scan_sources ::
  "unicode \<Rightarrow> ustring list \<Rightarrow> (ustring \<times> ustring list) list \<Rightarrow> ustring list \<Rightarrow>
   (ustring \<times> ustring) list \<times> ustring set \<Rightarrow> (ustring \<times> ustring) list \<times> ustring set" where
  "scan_sources U kws sp [] acc = acc"
| "scan_sources U kws sp (source # rest) acc =
     scan_sources U kws sp rest (scan_paragraphs U kws source (dict_get sp source []) acc)"

definition selected_sources :: "shell \<Rightarrow> ustring list" where
  "selected_sources st = map fst (filter snd (source_checkboxes st))"

definition matching_paragraphs :: "unicode \<Rightarrow> shell \<Rightarrow> (ustring \<times> ustring) list" where
  "matching_paragraphs U st =
     fst (scan_sources U (keyword_list st) (source_paragraphs st) (selected_sources st) ([], {}))"

definition update_output :: "unicode \<Rightarrow> shell \<Rightarrow> shell" where
  "update_output U st =
     st\<lparr>output_area :=
          build_result_text_with_sources U (matching_paragraphs U st) (keyword_list st)\<rparr>"

text \<open>
  What the widgets and the collaborators give to \<^verbatim>\<open>process_click\<close>: the two text
  fields, \<^verbatim>\<open>file_picker.result\<close> (\<open>None\<close> until the dialog has been closed once; then an
  event whose \<^verbatim>\<open>files\<close> may be \<open>None\<close>, when the dialog was cancelled), for each
  picked file its name and what opening and decoding it gives (\<open>Inl\<close> the text of the
  exception of \<^verbatim>\<open>open\<close>), and the response to the request for the address.
\<close>

record picked_file =
  file_name :: ustring
  file_bytes :: "ustring + pdf"

record picker_event =
  files :: "picked_file list option"

record inputs =
  url_field :: ustring
  keywords_field :: ustring
  file_picker_result :: "picker_event option"
  http_response :: response

definition podaj_url :: ustring where
  "podaj_url = ascii ''Podaj URL lub wybierz plik(i) PDF''"

definition podaj_slowo :: ustring where
  "podaj_slowo = ascii ''Podaj przynajmniej jedno s'' @ [322] @ ascii ''owo kluczowe''"

text \<open>\<^verbatim>\<open>re.split(r"[\s,]+", keywords_raw)\<close> and the comprehension around it (line 152).\<close>

definition is_separator :: "unicode \<Rightarrow> nat \<Rightarrow> bool" where
  "is_separator U c = (is_space U c \<or> c = comma)"

function split_separators :: "unicode \<Rightarrow> ustring \<Rightarrow> ustring list" where
  "split_separators U [] = [[]]"
| "split_separators U (c # cs) =
     (if is_separator U c then [] # split_separators U (dropWhile (is_separator U) cs)
      else cons_first c (split_separators U cs))"
  by pat_completeness auto
termination
  by (relation "measure (\<lambda>(U, s). length s)") (auto simp: less_Suc_eq_le length_dropWhile_le)

definition parse_keywords :: "unicode \<Rightarrow> ustring \<Rightarrow> ustring list" where
  "parse_keywords U keywords_raw =
     map (strip U) (filter (\<lambda>k. strip U k \<noteq> []) (split_separators U keywords_raw))"

text \<open>
  The loop over the picked files (lines 175-189): \<open>i\<close> files are done, \<open>total_files\<close>
  is the number of all.  \<open>Inl\<close> is the state at the \<^verbatim>\<open>return\<close> of the exception handler.
\<close>

fun load_files :: "unicode \<Rightarrow> nat \<Rightarrow> nat \<Rightarrow> picked_file list \<Rightarrow> shell \<Rightarrow> shell + shell" where
  "load_files U i total_files [] st = Inr st"
| "load_files U i total_files (f # fs) st =
     (case (case file_bytes f of Inl ex \<Rightarrow> Inl ex
                               | Inr pdf_bytes \<Rightarrow> extract_text_from_pdf_bytes U pdf_bytes) of
        Inl ex \<Rightarrow> Inl (st\<lparr>snack_bar := Some ex, progress_visible := False\<rparr>)
      | Inr pdf_pars \<Rightarrow>
          load_files U (i + 1) total_files fs
            (st\<lparr>source_paragraphs :=
                   dict_set (source_paragraphs st) (ascii ''Plik PDF: '' @ file_name f) pdf_pars,
                 progress_value := (i + 1, total_files)\<rparr>))"

text \<open>The loop that makes a checked checkbox for each source (lines 195-200).\<close>

fun add_checkboxes :: "ustring list \<Rightarrow> shell \<Rightarrow> shell" where
  "add_checkboxes [] st = st"
| "add_checkboxes (source # rest) st =
     add_checkboxes rest
       (st\<lparr>source_checkboxes := dict_set (source_checkboxes st) source True,
           filter_column := filter_column st @ [(shorten_text source 40, source)]\<rparr>)"

text \<open>
  \<^verbatim>\<open>process_click\<close> (lines 137-203), in the order of the source: the two validations,
  the new keyword list and the cleared containers, the address, the files, the
  checkboxes, \<^verbatim>\<open>update_output\<close>.
\<close>

definition process_click :: "unicode \<Rightarrow> inputs \<Rightarrow> shell \<Rightarrow> shell" where
  "process_click U inp st =
     (let url = strip U (url_field inp);
          keywords_raw = strip U (keywords_field inp)
      in if url = [] \<and> file_picker_result inp = None
         then st\<lparr>snack_bar := Some podaj_url\<rparr>
         else if keywords_raw = []
         then st\<lparr>snack_bar := Some podaj_slowo\<rparr>
         else
           (let st = st\<lparr>keyword_list := parse_keywords U keywords_raw, source_paragraphs := [],
                        filter_column := [], source_checkboxes := [],
                        progress_visible := True\<rparr>;
                after_url =
                  (if url \<noteq> []
                   then (case extract_text_from_url U (http_response inp) of
                           Inl ex \<Rightarrow> Inl (st\<lparr>snack_bar := Some ex, progress_visible := False\<rparr>)
                         | Inr url_pars \<Rightarrow>
                             Inr (st\<lparr>source_paragraphs :=
                                        dict_set (source_paragraphs st) (ascii ''URL: '' @ url) url_pars\<rparr>))
                   else Inr st)
            in case after_url of
                 Inl st \<Rightarrow> st
               | Inr st \<Rightarrow>
                   (let picked = (case file_picker_result inp of
                                    None \<Rightarrow> []
                                  | Some ev \<Rightarrow> (case files ev of None \<Rightarrow> [] | Some fs \<Rightarrow> fs))
                    in case load_files U 0 (length picked) picked st of
                         Inl st \<Rightarrow> st
                       | Inr st \<Rightarrow>
                           update_output U
                             (add_checkboxes (map fst (source_paragraphs st))
                                (st\<lparr>progress_visible := False\<rparr>)))))"

text \<open>
  \<^verbatim>\<open>on_save_result\<close> (lines 223-234).  \<open>ev_path\<close> is the path of the dialog's event,
  \<open>None\<close> when it was cancelled; \<open>doc_save\<close> is the text of the exception of
  \<^verbatim>\<open>doc.save\<close> for a path, \<open>None\<close> when the file is written.  The result is the new state
  and, unless the handler returned at once, the path and the document given to
  \<^verbatim>\<open>doc.save\<close>.
\<close>

definition zapisano :: ustring where
  "zapisano = ascii ''Zapisano: ''"

definition blad_zapisu :: ustring where
  "blad_zapisu = blad @ ascii '' zapisu: ''"

definition on_save_result ::
  "unicode \<Rightarrow> ustring option \<Rightarrow> (ustring \<Rightarrow> ustring option) \<Rightarrow> shell \<Rightarrow>
   shell \<times> (ustring \<times> ustring list) option" where
  "on_save_result U ev_path doc_save st =
     (case ev_path of
        None \<Rightarrow> (st, None)
      | Some chosen \<Rightarrow>
          if chosen = [] then (st, None)
          else
            (let path = (if \<not> endswith (lower_str chosen) (ascii ''.docx'')
                         then rstrip_dots chosen @ ascii ''.docx'' else chosen)
             in case doc_save path of
                  None \<Rightarrow> (st\<lparr>snack_bar := Some (zapisano @ path)\<rparr>,
                            Some (path, save_as_docx U (output_area st)))
                | Some err \<Rightarrow> (st\<lparr>snack_bar := Some (blad_zapisu @ err)\<rparr>,
                               Some (path, save_as_docx U (output_area st)))))"

text \<open>
  The tables for texts of ASCII characters, for the examples: the classes are those of
  the ASCII range, and two characters are the same without regard to case when they
  are the same after \<^verbatim>\<open>A-Z\<close> is folded to \<^verbatim>\<open>a-z\<close>.  Every other character is taken as
  neither a word character nor whitespace.
\<close>

definition ascii_only :: unicode where
  "ascii_only = \<lparr>is_word = ascii_word, is_space = ascii_space,
                 ignore_case = (\<lambda>k c. lower k = lower c)\<rparr>"

section \<open>The vocabulary of the claims\<close>

text \<open>
  Positions in a paragraph: a word character stands at index \<open>i\<close>; there is a word
  boundary before index \<open>i\<close>; the keyword occurs at index \<open>i\<close>, compared without case; it
  occurs there with a word boundary on both sides.
\<close>

definition word_at :: "unicode \<Rightarrow> ustring \<Rightarrow> nat \<Rightarrow> bool" where
  "word_at U P i = (i < length P \<and> is_word U (P ! i))"

definition boundary_at :: "unicode \<Rightarrow> ustring \<Rightarrow> nat \<Rightarrow> bool" where
  "boundary_at U P i = ((0 < i \<and> word_at U P (i - 1)) \<noteq> word_at U P i)"

definition occurs_at :: "unicode \<Rightarrow> ustring \<Rightarrow> ustring \<Rightarrow> nat \<Rightarrow> bool" where
  "occurs_at U K P i = (i + length K \<le> length P \<and> list_all2 (ignore_case U) K (take (length K) (drop i P)))"

definition whole_word_at :: "unicode \<Rightarrow> ustring \<Rightarrow> ustring \<Rightarrow> nat \<Rightarrow> bool" where
  "whole_word_at U K P i = (occurs_at U K P i \<and> boundary_at U P i \<and> boundary_at U P (i + length K))"

text \<open>
  A keyword occurs as a whole word somewhere in the paragraph; and it occurs, but each
  time inside a longer word: the occurrence consists of word characters and has a word
  character directly before or behind it.
\<close>

definition occurs_as_whole_word :: "unicode \<Rightarrow> ustring \<Rightarrow> ustring \<Rightarrow> bool" where
  "occurs_as_whole_word U K P = list_ex (whole_word_at U K P) [0..<Suc (length P)]"

definition inside_longer_word :: "unicode \<Rightarrow> ustring \<Rightarrow> nat \<Rightarrow> nat \<Rightarrow> bool" where
  "inside_longer_word U P i n =
     (list_all (word_at U P) [i..<i + n] \<and> ((0 < i \<and> word_at U P (i - 1)) \<or> word_at U P (i + n)))"

definition occurs_only_inside_words :: "unicode \<Rightarrow> ustring \<Rightarrow> ustring \<Rightarrow> bool" where
  "occurs_only_inside_words U K P =
     (list_ex (occurs_at U K P) [0..<Suc (length P)] \<and>
      list_all (\<lambda>i. occurs_at U K P i \<longrightarrow> inside_longer_word U P i (length K)) [0..<Suc (length P)])"

text \<open>
  For the selection: the key by which \<^verbatim>\<open>update_output\<close> recognises a paragraph it has
  already taken; the matching paragraphs of the selected sources in the order of the
  two loops, before any is dropped; and the entries of such a list whose key is
  neither in \<open>S\<close> nor the key of an earlier entry.
\<close>

definition prefix200 :: "ustring \<times> ustring \<Rightarrow> ustring" where
  "prefix200 e = take 200 (snd e)"

definition candidates :: "unicode \<Rightarrow> shell \<Rightarrow> (ustring \<times> ustring) list" where
  "candidates U st =
     concat (map (\<lambda>source. map (Pair source)
                    (filter (\<lambda>p. paragraph_matches U p (keyword_list st))
                       (dict_get (source_paragraphs st) source [])))
               (selected_sources st))"

fun first_occurrences :: "ustring set \<Rightarrow> (ustring \<times> ustring) list \<Rightarrow> (ustring \<times> ustring) list" where
  "first_occurrences S [] = []"
| "first_occurrences S (e # es) =
     (if prefix200 e \<in> S then first_occurrences S es
      else e # first_occurrences (insert (prefix200 e) S) es)"


text \<open>
  Sessions and inputs used as examples: two sources with paragraphs that agree on their
  first 200 characters; a session loaded from a page; a submit whose request fails; a
  submit with no address after the file dialog was opened and cancelled.
\<close>

definition long_paragraph :: "ustring \<Rightarrow> ustring" where
  "long_paragraph ending = ascii ''The budget '' @ replicate 200 (of_char (CHR ''a'')) @ ending"

definition two_sources :: shell where
  "two_sources = initial_shell\<lparr>
     source_paragraphs :=
       [(ascii ''URL: u'', [ascii ''Intro.'', long_paragraph (ascii '' one'')]),
        (ascii ''Plik PDF: f.pdf'', [long_paragraph (ascii '' two''), ascii ''A budget.''])],
     keyword_list := [ascii ''budget''],
     source_checkboxes := [(ascii ''URL: u'', True), (ascii ''Plik PDF: f.pdf'', True)]\<rparr>"

definition loaded_page :: html_page where
  "loaded_page =
     \<lparr>p_elements = [[ascii ''The budget grows.''], [ascii ''Nothing here.'']], all_strings = []\<rparr>"

definition loaded_shell :: shell where
  "loaded_shell =
     process_click ascii_only
       \<lparr>url_field = ascii ''http://a'', keywords_field = ascii ''budget'',
        file_picker_result = None, http_response = Inr loaded_page\<rparr> initial_shell"

definition failing_fetch :: inputs where
  "failing_fetch = \<lparr>url_field = ascii ''http://b'', keywords_field = ascii ''forecast'',
                     file_picker_result = None, http_response = Inl (ascii ''404 Client Error'')\<rparr>"

definition cancelled_picker :: inputs where
  "cancelled_picker = \<lparr>url_field = [], keywords_field = ascii ''forecast'',
                        file_picker_result = Some \<lparr>files = None\<rparr>, http_response = Inl []\<rparr>"

text \<open>
  The keyword list of a shell is tokenized when none of its tokens is empty or made of
  whitespace only.
\<close>

definition tokenized :: "unicode \<Rightarrow> shell \<Rightarrow> bool" where
  "tokenized U st = (\<forall>k\<in>set (keyword_list st). strip U k \<noteq> [])"

text \<open>
  For the marking of keywords: the whole-word occurrences of a keyword that a scan from
  the left takes, from index \<open>i\<close> on: an occurrence that is met is taken and the scan goes
  on behind it, so an occurrence that overlaps a taken one is passed over.
\<close>

function matches_from :: "unicode \<Rightarrow> ustring \<Rightarrow> ustring \<Rightarrow> nat \<Rightarrow> nat list" where
  "matches_from U K P i =
     (if length P \<le> i \<or> K = [] then []
      else if whole_word_at U K P i then i # matches_from U K P (i + length K)
      else matches_from U K P (Suc i))"
  by pat_completeness auto
termination
  by (relation "measure (\<lambda>(U, K, P, i). length P - i)") (auto simp: neq_Nil_conv)

declare matches_from.simps [simp del]

text \<open>
  A text with an asterisk put in before each index of \<open>starts\<close> and of \<open>ends\<close> (the end
  of the text is an index too), every character of the text kept; \<open>i\<close> is the index of
  the first character.  \<open>mark_matches\<close> puts the asterisks around the occurrences that
  \<open>matches_from\<close> takes.
\<close>

fun insert_marks :: "nat list \<Rightarrow> nat list \<Rightarrow> nat \<Rightarrow> ustring \<Rightarrow> ustring" where
  "insert_marks starts ends i [] = (if i \<in> set ends then [star] else [])"
| "insert_marks starts ends i (c # cs) =
     (if i \<in> set ends then [star] else []) @ (if i \<in> set starts then [star] else []) @
     c # insert_marks starts ends (Suc i) cs"

definition mark_matches :: "unicode \<Rightarrow> ustring \<Rightarrow> ustring \<Rightarrow> ustring" where
  "mark_matches U K P =
     insert_marks (matches_from U K P 0) (map (\<lambda>j. j + length K) (matches_from U K P 0)) 0 P"

text \<open>
  For the units of a page.  The text of a page; the places where a hyphen stands
  directly before a line break, and the text without the hyphen and the line break of
  each such place.
\<close>

definition page_text :: "ustring option \<Rightarrow> ustring" where
  "page_text extracted = (case extracted of None \<Rightarrow> [] | Some t \<Rightarrow> t)"

definition hyphen_break_at :: "ustring \<Rightarrow> nat \<Rightarrow> bool" where
  "hyphen_break_at s i = (Suc i < length s \<and> s ! i = hyphen \<and> s ! Suc i = newline)"

definition outside_hyphen_breaks :: "ustring \<Rightarrow> nat \<Rightarrow> bool" where
  "outside_hyphen_breaks s i = (\<not> hyphen_break_at s i \<and> \<not> (0 < i \<and> hyphen_break_at s (i - 1)))"

definition remove_hyphen_breaks :: "ustring \<Rightarrow> ustring" where
  "remove_hyphen_breaks s = map (nth s) (filter (outside_hyphen_breaks s) [0..<length s])"

text \<open>
  A text with its whitespace collapsed: each maximal run of whitespace characters
  becomes one space, except a run that is a single character other than a line break,
  which stays as it is; all other characters are kept.
\<close>

definition collapse_run :: "ustring \<Rightarrow> ustring" where
  "collapse_run r = (if length r = 1 \<and> r \<noteq> [newline] then r else [blank])"

function collapse_runs :: "unicode \<Rightarrow> ustring \<Rightarrow> ustring" where
  "collapse_runs U [] = []"
| "collapse_runs U (c # cs) =
     (if is_space U c
      then collapse_run (c # takeWhile (is_space U) cs) @ collapse_runs U (dropWhile (is_space U) cs)
      else c # collapse_runs U cs)"
  by pat_completeness auto
termination
  by (relation "measure (\<lambda>(U, s). length s)") (auto simp: less_Suc_eq_le length_dropWhile_le)

text \<open>
  Two neighbours in a text are related by \<open>R\<close>.  A text is cut at its sentence ends
  into the pieces \<open>p\<close> of \<open>cuts\<close>, each followed by the whitespace \<open>w\<close> that is cut out,
  and a last piece \<open>rest\<close>: the pieces and the cut-out whitespace make up the text in
  this order; each piece before a cut ends with one of \<^verbatim>\<open>. ! ?\<close> and the whitespace cut
  out is not empty; inside a piece no whitespace follows one of \<^verbatim>\<open>. ! ?\<close>; and no piece
  behind a cut begins with whitespace.  So the text is cut at each maximal run of
  whitespace that follows one of \<^verbatim>\<open>. ! ?\<close>, and nowhere else.
\<close>

fun adjacent :: "(nat \<Rightarrow> nat \<Rightarrow> bool) \<Rightarrow> ustring \<Rightarrow> bool" where
  "adjacent R (a # b # cs) = (R a b \<or> adjacent R (b # cs))"
| "adjacent R cs = False"

definition cut_at_sentence_ends ::
  "unicode \<Rightarrow> ustring \<Rightarrow> (ustring \<times> ustring) list \<Rightarrow> ustring \<Rightarrow> bool" where
  "cut_at_sentence_ends U text cuts rest =
     (text = concat (map (\<lambda>(p, w). p @ w) cuts) @ rest \<and>
      list_all (\<lambda>(p, w). p \<noteq> [] \<and> is_sentence_end (last p) \<and> w \<noteq> [] \<and> list_all (is_space U) w) cuts \<and>
      list_all (\<lambda>p. \<not> adjacent (\<lambda>a b. is_sentence_end a \<and> is_space U b) p) (map fst cuts @ [rest]) \<and>
      list_all (\<lambda>p. p = [] \<or> \<not> is_space U (hd p)) (tl (map fst cuts @ [rest])))"

text \<open>
  A page used as an example: a hyphenated line end, runs of blanks, a single tab, line
  breaks, and three sentences.
\<close>

definition sample_page :: ustring where
  "sample_page = ascii ''Budget fore-'' @ [newline] @ ascii ''cast is  here.  Next'' @ [9] @
                 ascii ''one!'' @ [newline] @ ascii ''Third?   ''"

text \<open>
  A larger part of the tables, for examples with Polish text: the Polish letters, given
  as pairs of the capital and the small letter, are word characters and match their
  other case, and the no-break space, code point 160, is whitespace.  The examples use
  no other character from outside the ASCII range.
\<close>

definition polish_letters :: "(nat \<times> nat) list" where
  "polish_letters = [(260, 261), (262, 263), (280, 281), (321, 322), (323, 324),
                     (211, 243), (346, 347), (377, 378), (379, 380)]"

definition fold_case :: "nat \<Rightarrow> nat" where
  "fold_case c = (case map_of polish_letters c of Some l \<Rightarrow> l | None \<Rightarrow> lower c)"

definition with_polish :: unicode where
  "with_polish =
     \<lparr>is_word = (\<lambda>c. ascii_word c \<or> c \<in> set (map fst polish_letters) \<or> c \<in> set (map snd polish_letters)),
      is_space = (\<lambda>c. ascii_space c \<or> c = 160),
      ignore_case = (\<lambda>k c. fold_case k = fold_case c)\<rparr>"

definition budzet_miasta :: ustring where
  "budzet_miasta = ascii ''Bud'' @ [380] @ ascii ''et miasta''"

section \<open>Whole-word search\<close>

text \<open>The literal part of the pattern, and the scan of \<open>re_search\<close> by positions.\<close>

lemma literal_prefix_iff:
  "literal_prefix U K s = (length K \<le> length s \<and> list_all2 (ignore_case U) K (take (length K) s))"
  by (induction U K s rule: literal_prefix.induct) auto

lemma head_opt_drop: "head_opt (drop i P) = (if i < length P then Some (P ! i) else None)"
proof (cases "i < length P")
  case True
  then have "drop i P = P ! i # drop (Suc i) P" by (simp add: Cons_nth_drop_Suc)
  with True show ?thesis by simp
next
  case False
  then show ?thesis by simp
qed

lemma is_word_head_drop: "is_word_opt U (head_opt (drop i P)) = word_at U P i"
  by (simp add: head_opt_drop word_at_def)

lemma re_search_positions:
  "re_search U K prev s =
     (\<exists>i\<le>length s. match_here U K (if i = 0 then prev else Some (s ! (i - 1))) (drop i s))"
proof (induction s arbitrary: prev)
  case Nil
  then show ?case by simp
next
  case (Cons c cs)
  have "(\<exists>i\<le>length (c # cs). match_here U K (if i = 0 then prev else Some ((c # cs) ! (i - 1))) (drop i (c # cs)))
      = (match_here U K prev (c # cs) \<or>
         (\<exists>j\<le>length cs. match_here U K (if j = 0 then Some c else Some (cs ! (j - 1))) (drop j cs)))"
    (is "?L = (?A \<or> ?B)")
  proof
    assume ?L
    then obtain i where i: "i \<le> length (c # cs)"
      "match_here U K (if i = 0 then prev else Some ((c # cs) ! (i - 1))) (drop i (c # cs))" by blast
    show "?A \<or> ?B"
    proof (cases i)
      case 0
      with i show ?thesis by simp
    next
      case (Suc j)
      with i have "j \<le> length cs" "match_here U K (if j = 0 then Some c else Some (cs ! (j - 1))) (drop j cs)"
        by (auto simp: nth_Cons split: nat.splits if_splits)
      then show ?thesis by blast
    qed
  next
    assume "?A \<or> ?B"
    then show ?L
    proof
      assume ?A
      then show ?L by (intro exI[of _ 0]) simp
    next
      assume ?B
      then obtain j where "j \<le> length cs" "match_here U K (if j = 0 then Some c else Some (cs ! (j - 1))) (drop j cs)" by blast
      then show ?L by (intro exI[of _ "Suc j"]) (auto simp: nth_Cons split: nat.splits)
    qed
  qed
  with Cons.IH[of "Some c"] show ?case by simp
qed

lemma match_here_whole_word:
  assumes "K \<noteq> []" "i \<le> length P"
  shows "match_here U K (if i = 0 then None else Some (P ! (i - 1))) (drop i P) = whole_word_at U K P i"
proof -
  have start: "is_word_opt U (if i = 0 then None else Some (P ! (i - 1))) = (0 < i \<and> word_at U P (i - 1))"
    using assms(2) by (auto simp: word_at_def)
  have lp: "literal_prefix U K (drop i P) = occurs_at U K P i"
    using assms(2) by (auto simp: literal_prefix_iff occurs_at_def)
  have endb: "is_word_opt U (Some (last (take (length K) (drop i P)))) = (0 < i + length K \<and> word_at U P (i + length K - 1))"
    if "occurs_at U K P i"
  proof -
    from that have le: "i + length K \<le> length P" by (simp add: occurs_at_def)
    from assms(1) have n: "0 < length K" by simp
    from le n have lt: "i < length P" by linarith
    have len: "length (take (length K) (drop i P)) = length K" using le by simp
    then have "take (length K) (drop i P) \<noteq> []" using n by (metis length_greater_0_conv)
    then have "last (take (length K) (drop i P)) = take (length K) (drop i P) ! (length K - 1)"
      by (simp add: last_conv_nth len del: length_take)
    also have "\<dots> = drop i P ! (length K - 1)" using n by simp
    also have "\<dots> = P ! (i + (length K - 1))" using le n by (intro nth_drop) simp
    also have "i + (length K - 1) = i + length K - 1" using n by linarith
    finally have "last (take (length K) (drop i P)) = P ! (i + length K - 1)" .
    moreover have "i + length K - 1 < length P" using le n by linarith
    ultimately show ?thesis using n by (simp add: word_at_def)
  qed
  have hd0: "is_word_opt U (head_opt (drop i P)) = word_at U P i"
    by (rule is_word_head_drop)
  have tail: "is_word_opt U (head_opt (drop (length K) (drop i P))) = word_at U P (i + length K)"
    by (simp only: drop_drop is_word_head_drop add.commute)
  show ?thesis
  proof (cases "occurs_at U K P i")
    case True
    show ?thesis
      unfolding match_here_def whole_word_at_def word_boundary_def boundary_at_def
      using assms(1) True
      by (simp only: start lp endb[OF True] tail hd0 if_False simp_thms)
  next
    case False
    then show ?thesis
      unfolding match_here_def whole_word_at_def using lp by simp
  qed
qed

lemma re_search_whole_word:
  assumes "K \<noteq> []"
  shows "re_search U K None P = (\<exists>i\<le>length P. whole_word_at U K P i)"
proof -
  have "(\<exists>i\<le>length P. match_here U K (if i = 0 then None else Some (P ! (i - 1))) (drop i P))
      = (\<exists>i\<le>length P. whole_word_at U K P i)"
    using match_here_whole_word[OF assms] by blast
  then show ?thesis by (simp only: re_search_positions)
qed

text \<open>A keyword that is found nowhere is substituted nowhere.\<close>

lemma re_sub_bold_no_match: "\<not> re_search U kw prev s \<Longrightarrow> re_sub_bold U kw prev s = s"
  by (induction s arbitrary: prev) auto

text \<open>
  C1.  For a non-empty keyword \<open>K\<close> and a paragraph \<open>P\<close>: if \<open>K\<close> occurs in \<open>P\<close> as a whole
  word (word boundaries on both sides, compared without case), \<^verbatim>\<open>paragraph_matches\<close>
  of \<open>P\<close> and \<open>[K]\<close> is true; if \<open>K\<close> occurs in \<open>P\<close> only inside longer words, it is false.
\<close>

theorem paragraph_matches_whole_word:
  assumes "K \<noteq> []"
  shows "(occurs_as_whole_word U K P \<longrightarrow> paragraph_matches U P [K]) \<and>
         (occurs_only_inside_words U K P \<longrightarrow> \<not> paragraph_matches U P [K])"
proof
  show "occurs_as_whole_word U K P \<longrightarrow> paragraph_matches U P [K]"
    using assms by (auto simp: occurs_as_whole_word_def re_search_whole_word list_ex_iff less_Suc_eq_le)
next
  show "occurs_only_inside_words U K P \<longrightarrow> \<not> paragraph_matches U P [K]"
  proof (intro impI notI)
    assume only: "occurs_only_inside_words U K P" and m: "paragraph_matches U P [K]"
    from m assms obtain i where i: "i \<le> length P" "whole_word_at U K P i"
      by (auto simp: re_search_whole_word split: if_splits)
    then have occ: "occurs_at U K P i" and b1: "boundary_at U P i" and b2: "boundary_at U P (i + length K)"
      by (simp_all add: whole_word_at_def)
    from only i(1) occ have ins: "inside_longer_word U P i (length K)"
      by (auto simp: occurs_only_inside_words_def list_all_iff)
    from assms have n: "0 < length K" by simp
    from ins have allw: "\<forall>j\<in>{i..<i + length K}. word_at U P j"
      by (simp add: inside_longer_word_def list_all_iff)
    from n have "i \<in> {i..<i + length K}" "i + length K - 1 \<in> {i..<i + length K}"
      by (simp_all, linarith+)
    with allw have w1: "word_at U P i" and w2: "word_at U P (i + length K - 1)" by blast+
    from ins have "(0 < i \<and> word_at U P (i - 1)) \<or> word_at U P (i + length K)"
      by (simp add: inside_longer_word_def)
    then show False
    proof
      assume "0 < i \<and> word_at U P (i - 1)"
      with w1 b1 show False by (simp add: boundary_at_def)
    next
      assume "word_at U P (i + length K)"
      with w2 b2 n show False by (simp add: boundary_at_def)
    qed
  qed
qed

theorem paragraph_matches_whole_word_witness:
  "paragraph_matches ascii_only (ascii ''The Cat sat'') [ascii ''cat''] \<and>
   \<not> paragraph_matches ascii_only (ascii ''category'') [ascii ''cat''] \<and>
   \<not> paragraph_matches with_polish budzet_miasta [ascii ''et'']"
proof -
  have k: "ascii ''cat'' \<noteq> []" and k': "ascii ''et'' \<noteq> []" by (simp_all add: ascii_def)
  have h1: "occurs_as_whole_word ascii_only (ascii ''cat'') (ascii ''The Cat sat'')" by code_simp
  have h2: "occurs_only_inside_words ascii_only (ascii ''cat'') (ascii ''category'')" by code_simp
  have h3: "occurs_only_inside_words with_polish (ascii ''et'') budzet_miasta" by code_simp
  from paragraph_matches_whole_word[OF k, of ascii_only "ascii ''The Cat sat''"]
       paragraph_matches_whole_word[OF k, of ascii_only "ascii ''category''"]
       paragraph_matches_whole_word[OF k', of with_polish budzet_miasta] h1 h2 h3
  show ?thesis by blast
qed

text \<open>
  C10.  When \<^verbatim>\<open>paragraph_matches\<close> is false for a paragraph and a keyword list,
  \<^verbatim>\<open>bold_keywords\<close> returns the paragraph unchanged.
\<close>

theorem bold_keywords_unmatched:
  "\<not> paragraph_matches U P K \<Longrightarrow> bold_keywords U P K = P"
  by (induction K) (auto simp: re_sub_bold_no_match split: if_splits)

theorem bold_keywords_unmatched_witness:
  "\<not> paragraph_matches ascii_only (ascii ''category'') [ascii ''cat'', ascii ''dog''] \<and>
   bold_keywords ascii_only (ascii ''category'') [ascii ''cat'', ascii ''dog''] = ascii ''category'' \<and>
   bold_keywords with_polish budzet_miasta [ascii ''et''] = budzet_miasta"
proof -
  have h: "\<not> paragraph_matches ascii_only (ascii ''category'') [ascii ''cat'', ascii ''dog'']"
    by code_simp
  have h': "\<not> paragraph_matches with_polish budzet_miasta [ascii ''et'']"
    by code_simp
  from h bold_keywords_unmatched[OF h] bold_keywords_unmatched[OF h'] show ?thesis by simp
qed

section \<open>Stripping whitespace\<close>

lemma dropWhile_id: "xs = [] \<or> \<not> P (hd xs) \<Longrightarrow> dropWhile P xs = xs"
  by (cases xs) auto

lemma strip_decomp:
  "\<exists>a b. s = a @ strip U s @ b \<and> (\<forall>c\<in>set a. is_space U c) \<and> (\<forall>c\<in>set b. is_space U c)"
proof -
  let ?t = "dropWhile (is_space U) s"
  have 1: "s = takeWhile (is_space U) s @ ?t" by simp
  have "rev (takeWhile (is_space U) (rev ?t) @ dropWhile (is_space U) (rev ?t)) = rev (rev ?t)"
    by (simp only: takeWhile_dropWhile_id)
  then have 2: "?t = strip U s @ rev (takeWhile (is_space U) (rev ?t))"
    by (simp only: rev_append rev_rev_ident strip_def)
  have "s = takeWhile (is_space U) s @ strip U s @ rev (takeWhile (is_space U) (rev ?t))"
    using 1 2 by metis
  moreover have "\<forall>c\<in>set (takeWhile (is_space U) s). (is_space U) c" by (auto dest: set_takeWhileD)
  moreover have "\<forall>c\<in>set (rev (takeWhile (is_space U) (rev ?t))). (is_space U) c" by (auto dest: set_takeWhileD)
  ultimately show ?thesis by blast
qed

lemma strip_ends:
  assumes "strip U s \<noteq> []"
  shows "\<not> is_space U (hd (strip U s))" and "\<not> is_space U (last (strip U s))"
proof -
  let ?t = "dropWhile (is_space U) s"
  let ?u = "dropWhile (is_space U) (rev ?t)"
  from assms have u: "?u \<noteq> []" by (simp add: strip_def)
  have t: "?t \<noteq> []"
  proof
    assume "?t = []"
    then have "?u = []" by (simp only: rev.simps dropWhile.simps)
    with u show False by contradiction
  qed
  have hu: "\<not> is_space U (hd ?u)" using u by (rule hd_dropWhile)
  have ht: "\<not> is_space U (hd ?t)" using t by (rule hd_dropWhile)
  have "last ?u = last (rev ?t)"
  proof -
    have "rev ?t = takeWhile (is_space U) (rev ?t) @ ?u" by simp
    then show ?thesis using u by (metis last_appendR)
  qed
  also have "\<dots> = hd ?t" using t by (simp add: last_rev)
  finally have lu: "last ?u = hd ?t" .
  show "\<not> is_space U (hd (strip U s))" using u lu ht by (simp add: strip_def hd_rev)
  show "\<not> is_space U (last (strip U s))" using u hu by (simp add: strip_def last_rev)
qed

lemma strip_idem: "strip U (strip U s) = strip U s"
proof (cases "strip U s = []")
  case True
  show ?thesis unfolding True by (simp add: strip_def)
next
  case False
  note e = strip_ends[OF False]
  have 1: "dropWhile (is_space U) (strip U s) = strip U s" using False e(1) by (intro dropWhile_id) simp
  have "hd (rev (strip U s)) = last (strip U s)" using False by (simp add: hd_rev)
  then have 2: "dropWhile (is_space U) (rev (strip U s)) = rev (strip U s)"
    using False e(2) by (intro dropWhile_id) simp
  show ?thesis
    unfolding strip_def[of U "strip U s"] by (simp only: 1 2 rev_rev_ident)
qed

section \<open>The selection of \<^verbatim>\<open>update_output\<close>\<close>

text \<open>The two loops compute the first occurrences of the candidates.\<close>

lemma first_occurrences_append:
  "first_occurrences S (xs @ ys) =
     first_occurrences S xs @ first_occurrences (S \<union> prefix200 ` set xs) ys"
  by (induction xs arbitrary: S) (auto simp: insert_absorb)

lemma scan_paragraphs_first:
  "scan_paragraphs U kws source ps (m, S) =
     (m @ first_occurrences S (map (Pair source) (filter (\<lambda>p. (paragraph_matches U) p kws) ps)),
      S \<union> prefix200 ` set (map (Pair source) (filter (\<lambda>p. (paragraph_matches U) p kws) ps)))"
  by (induction ps arbitrary: m S) (auto simp: prefix200_def Let_def)

lemma scan_sources_first:
  "scan_sources U kws sp srcs (m, S) =
     (m @ first_occurrences S
            (concat (map (\<lambda>source. map (Pair source)
               (filter (\<lambda>p. (paragraph_matches U) p kws) (dict_get sp source []))) srcs)),
      S \<union> prefix200 ` set
            (concat (map (\<lambda>source. map (Pair source)
               (filter (\<lambda>p. (paragraph_matches U) p kws) (dict_get sp source []))) srcs)))"
proof (induction srcs arbitrary: m S)
  case Nil
  then show ?case by simp
next
  case (Cons source rest)
  show ?case
    by (simp only: scan_sources.simps scan_paragraphs_first Cons.IH list.map concat.simps
          first_occurrences_append append_assoc set_append image_Un Un_assoc)
qed

lemma matching_paragraphs_first:
  "matching_paragraphs U st = first_occurrences {} (candidates U st)"
  by (simp add: matching_paragraphs_def candidates_def scan_sources_first)

lemma first_occurrences_keys:
  "prefix200 ` set (first_occurrences S es) = prefix200 ` set es - S"
  by (induction es arbitrary: S) auto

lemma first_occurrences_distinct:
  "distinct (map prefix200 (first_occurrences S es))"
proof (induction es arbitrary: S)
  case Nil
  then show ?case by simp
next
  case (Cons e es)
  have "prefix200 e \<notin> prefix200 ` set (first_occurrences (insert (prefix200 e) S) es)"
    by (simp add: first_occurrences_keys)
  with Cons.IH show ?case by simp
qed

lemma first_occurrences_find:
  "e \<in> set (first_occurrences S es) \<Longrightarrow>
     find (\<lambda>c. prefix200 c = prefix200 e) es = Some e"
proof (induction es arbitrary: S)
  case Nil
  then show ?case by simp
next
  case (Cons c es)
  show ?case
  proof (cases "prefix200 c \<in> S")
    case True
    with Cons.prems have mem: "e \<in> set (first_occurrences S es)" by simp
    then have "prefix200 e \<in> prefix200 ` set (first_occurrences S es)" by blast
    then have "prefix200 e \<notin> S" by (simp add: first_occurrences_keys)
    with True have "prefix200 c \<noteq> prefix200 e" by auto
    with Cons.IH[OF mem] show ?thesis by simp
  next
    case False
    with Cons.prems have "e = c \<or> e \<in> set (first_occurrences (insert (prefix200 c) S) es)" by simp
    then show ?thesis
    proof
      assume "e = c"
      then show ?thesis by simp
    next
      assume mem: "e \<in> set (first_occurrences (insert (prefix200 c) S) es)"
      then have "prefix200 e \<in> prefix200 ` set (first_occurrences (insert (prefix200 c) S) es)" by blast
      then have "prefix200 e \<noteq> prefix200 c" by (auto simp: first_occurrences_keys)
      with Cons.IH[OF mem] show ?thesis by simp
    qed
  qed
qed

text \<open>
  C2.  The selection holds no two entries whose paragraphs agree on their first 200
  characters, also when they come from different sources; every matching paragraph of
  a selected source has an entry with its prefix in the selection; and each entry of
  the selection is the first candidate, in the order of sources and then paragraphs,
  with its prefix.
\<close>

theorem matching_paragraphs_dedup:
  "distinct (map prefix200 (matching_paragraphs U st)) \<and>
   (\<forall>c\<in>set (candidates U st). \<exists>e\<in>set (matching_paragraphs U st). prefix200 e = prefix200 c) \<and>
   (\<forall>e\<in>set (matching_paragraphs U st).
      find (\<lambda>c. prefix200 c = prefix200 e) (candidates U st) = Some e)"
proof (intro conjI ballI)
  show "distinct (map prefix200 (matching_paragraphs U st))"
    by (simp add: matching_paragraphs_first first_occurrences_distinct)
next
  fix c assume "c \<in> set (candidates U st)"
  then have "prefix200 c \<in> prefix200 ` set (first_occurrences {} (candidates U st))"
    by (simp add: first_occurrences_keys)
  then show "\<exists>e\<in>set (matching_paragraphs U st). prefix200 e = prefix200 c"
    by (auto simp: matching_paragraphs_first)
next
  fix e assume "e \<in> set (matching_paragraphs U st)"
  then show "find (\<lambda>c. prefix200 c = prefix200 e) (candidates U st) = Some e"
    by (simp add: matching_paragraphs_first first_occurrences_find)
qed

theorem matching_paragraphs_dedup_witness:
  "(ascii ''Plik PDF: f.pdf'', long_paragraph (ascii '' two'')) \<in> set (candidates ascii_only two_sources) \<and>
   (ascii ''URL: u'', long_paragraph (ascii '' one'')) \<in> set (matching_paragraphs ascii_only two_sources) \<and>
   prefix200 (ascii ''URL: u'', long_paragraph (ascii '' one'')) =
     prefix200 (ascii ''Plik PDF: f.pdf'', long_paragraph (ascii '' two'')) \<and>
   (\<exists>e\<in>set (matching_paragraphs ascii_only two_sources).
      prefix200 e = prefix200 (ascii ''Plik PDF: f.pdf'', long_paragraph (ascii '' two''))) \<and>
   find (\<lambda>c. prefix200 c = prefix200 (ascii ''URL: u'', long_paragraph (ascii '' one'')))
        (candidates ascii_only two_sources)
     = Some (ascii ''URL: u'', long_paragraph (ascii '' one''))"
proof -
  have c: "(ascii ''Plik PDF: f.pdf'', long_paragraph (ascii '' two'')) \<in> set (candidates ascii_only two_sources)"
    by code_simp
  have m: "(ascii ''URL: u'', long_paragraph (ascii '' one'')) \<in> set (matching_paragraphs ascii_only two_sources)"
    by code_simp
  have k: "prefix200 (ascii ''URL: u'', long_paragraph (ascii '' one'')) =
           prefix200 (ascii ''Plik PDF: f.pdf'', long_paragraph (ascii '' two''))"
    by code_simp
  from matching_paragraphs_dedup[of ascii_only two_sources] c m k show ?thesis by blast
qed

lemma no_keyword_no_match: "\<forall>k\<in>set kws. k = [] \<Longrightarrow> \<not> paragraph_matches U p kws"
  by (induction kws) auto

lemma scan_paragraphs_no_match:
  "\<forall>p\<in>set ps. \<not> paragraph_matches U p kws \<Longrightarrow>
     scan_paragraphs U kws source ps (m, S) = (m, S)"
  by (induction ps) auto

lemma parse_keywords_tokens: "k \<in> set (parse_keywords U raw) \<Longrightarrow> strip U k \<noteq> []"
  by (auto simp: parse_keywords_def strip_idem)

lemma endswith_append: "endswith (a @ suf) suf"
  by (simp add: endswith_def)

lemma rstrip_dots_last: "rstrip_dots s = [] \<or> last (rstrip_dots s) \<noteq> full_stop"
proof (cases "dropWhile (\<lambda>c. c = full_stop) (rev s) = []")
  case True
  then show ?thesis by (simp add: rstrip_dots_def)
next
  case False
  from hd_dropWhile[OF False] False show ?thesis by (simp add: rstrip_dots_def last_rev)
qed

text \<open>
  C8.  For a path chosen in the save dialog, the path given to \<^verbatim>\<open>doc.save\<close> ends with
  \<open>.docx\<close> when compared without case: a path that does so already is used as it is;
  otherwise its trailing dots are removed and \<open>.docx\<close> is appended.
\<close>

theorem on_save_result_path:
  assumes "chosen \<noteq> []"
  shows "\<exists>path. snd (on_save_result U (Some chosen) doc_save st)
                   = Some (path, save_as_docx U (output_area st)) \<and>
           endswith (lower_str path) (ascii ''.docx'') \<and>
           (endswith (lower_str chosen) (ascii ''.docx'') \<longrightarrow> path = chosen) \<and>
           (\<not> endswith (lower_str chosen) (ascii ''.docx'') \<longrightarrow>
              path = rstrip_dots chosen @ ascii ''.docx'' \<and>
              (rstrip_dots chosen = [] \<or> last (rstrip_dots chosen) \<noteq> full_stop))"
proof -
  have low: "lower_str (ascii ''.docx'') = (ascii ''.docx'')" by code_simp
  have e: "endswith (lower_str (rstrip_dots chosen @ (ascii ''.docx''))) (ascii ''.docx'')"
    using endswith_append[of "lower_str (rstrip_dots chosen)" "(ascii ''.docx'')"] low
    by (simp add: lower_str_def)
  show ?thesis
  proof (cases "endswith (lower_str chosen) (ascii ''.docx'')")
    case True
    with assms show ?thesis by (cases "doc_save chosen") (simp_all add: on_save_result_def Let_def)
  next
    case False
    with assms e rstrip_dots_last[of chosen] show ?thesis
      by (cases "doc_save (rstrip_dots chosen @ (ascii ''.docx''))") (simp_all add: on_save_result_def Let_def)
  qed
qed

section \<open>The keyword list\<close>

text \<open>
  The variable \<^verbatim>\<open>keywords\<close> is assigned where \<^verbatim>\<open>main\<close> sets it up and in \<^verbatim>\<open>process_click\<close>
  only; the loops of \<^verbatim>\<open>process_click\<close> and \<^verbatim>\<open>update_output\<close> leave it alone.
\<close>

lemma load_files_keywords:
  "load_files U i n fs st = Inl st' \<or> load_files U i n fs st = Inr st' \<Longrightarrow>
     keyword_list st' = keyword_list st"
proof (induction fs arbitrary: i st)
  case Nil
  then show ?case by simp
next
  case (Cons f fs)
  show ?case
  proof (cases "case file_bytes f of Inl ex \<Rightarrow> Inl ex
                | Inr pdf_bytes \<Rightarrow> extract_text_from_pdf_bytes U pdf_bytes")
    case (Inl ex)
    with Cons.prems show ?thesis by auto
  next
    case (Inr pdf_pars)
    let ?st = "st\<lparr>source_paragraphs :=
                   dict_set (source_paragraphs st) (ascii ''Plik PDF: '' @ file_name f) pdf_pars,
                 progress_value := (i + 1, n)\<rparr>"
    from Inr Cons.prems
    have "load_files U (i + 1) n fs ?st = Inl st' \<or> load_files U (i + 1) n fs ?st = Inr st'"
      by simp
    from Cons.IH[OF this] show ?thesis by simp
  qed
qed

theorem on_save_result_path_witness:
  "map_option fst (snd (on_save_result ascii_only (Some (ascii ''report..'')) (\<lambda>p. None) initial_shell))
     = Some (ascii ''report.docx'') \<and>
   map_option fst (snd (on_save_result ascii_only (Some (ascii ''Notes.DOCX'')) (\<lambda>p. None) initial_shell))
     = Some (ascii ''Notes.DOCX'')"
proof -
  have n1: "ascii ''report..'' \<noteq> []" and n2: "ascii ''Notes.DOCX'' \<noteq> []"
    by (simp_all add: ascii_def)
  have e1: "\<not> endswith (lower_str (ascii ''report..'')) (ascii ''.docx'')" by code_simp
  have e2: "endswith (lower_str (ascii ''Notes.DOCX'')) (ascii ''.docx'')" by code_simp
  have r: "rstrip_dots (ascii ''report..'') @ ascii ''.docx'' = ascii ''report.docx''" by code_simp
  from on_save_result_path[OF n1, of ascii_only "\<lambda>p. None" initial_shell] e1 r
  have 1: "map_option fst (snd (on_save_result ascii_only (Some (ascii ''report..'')) (\<lambda>p. None) initial_shell))
     = Some (ascii ''report.docx'')"
    by auto
  from on_save_result_path[OF n2, of ascii_only "\<lambda>p. None" initial_shell] e2
  have 2: "map_option fst (snd (on_save_result ascii_only (Some (ascii ''Notes.DOCX'')) (\<lambda>p. None) initial_shell))
     = Some (ascii ''Notes.DOCX'')"
    by auto
  from 1 2 show ?thesis by simp
qed

lemma add_checkboxes_keywords: "keyword_list (add_checkboxes srcs st) = keyword_list st"
  by (induction srcs arbitrary: st) simp_all

lemma process_click_keywords:
  "keyword_list (process_click U inp st) = keyword_list st \<or>
   keyword_list (process_click U inp st) = parse_keywords U (strip U (keywords_field inp))"
proof -
  let ?kws = "parse_keywords U (strip U (keywords_field inp))"
  let ?st0 = "st\<lparr>keyword_list := ?kws, source_paragraphs := [], filter_column := [],
                 source_checkboxes := [], progress_visible := True\<rparr>"
  have files: "keyword_list (case load_files U 0 (length picked) picked s of
                   Inl st \<Rightarrow> st
                 | Inr st \<Rightarrow> update_output U (add_checkboxes (map fst (source_paragraphs st))
                                 (st\<lparr>progress_visible := False\<rparr>))) = keyword_list s" for picked s
  proof (cases "load_files U 0 (length picked) picked s")
    case (Inl a)
    with load_files_keywords[of U 0 "length picked" picked s a] show ?thesis by simp
  next
    case (Inr b)
    with load_files_keywords[of U 0 "length picked" picked s b] show ?thesis
      by (simp add: update_output_def add_checkboxes_keywords)
  qed
  show ?thesis
    unfolding process_click_def Let_def
    by (auto simp: files split: sum.splits)
qed

lemma parse_keywords_clean: "k \<in> set (parse_keywords U raw) \<Longrightarrow> k \<noteq> [] \<and> strip U k = k"
  by (auto simp: parse_keywords_def strip_idem)

text \<open>
  C5.  The keyword list is tokenized when the shell starts and stays so through every
  submit.  For a tokenized list whose tokens are all empty or whitespace-only, which is
  the empty list, the selection and the formatted output are empty; and a keyword
  field whose tokens are all empty or whitespace-only gives the empty list.
\<close>

theorem matching_paragraphs_blank_keywords:
  "tokenized U initial_shell \<and>
   (tokenized U st \<longrightarrow> tokenized U (process_click U inp st)) \<and>
   (tokenized U st \<and> (\<forall>k\<in>set (keyword_list st). strip U k = []) \<longrightarrow>
      matching_paragraphs U st = [] \<and> output_area (update_output U st) = []) \<and>
   ((\<forall>k\<in>set (split_separators U raw). strip U k = []) \<longrightarrow> parse_keywords U raw = [])"
proof (intro conjI impI)
  show "tokenized U initial_shell" by (simp add: tokenized_def initial_shell_def)
next
  assume t: "tokenized U st"
  from process_click_keywords[of U inp st] show "tokenized U (process_click U inp st)"
  proof
    assume "keyword_list (process_click U inp st) = keyword_list st"
    with t show ?thesis by (simp add: tokenized_def)
  next
    assume "keyword_list (process_click U inp st) = parse_keywords U (strip U (keywords_field inp))"
    then show ?thesis using parse_keywords_tokens by (auto simp: tokenized_def)
  qed
next
  assume a: "tokenized U st \<and> (\<forall>k\<in>set (keyword_list st). strip U k = [])"
  then have e: "keyword_list st = []" by (cases "keyword_list st") (auto simp: tokenized_def)
  have "scan_sources U [] (source_paragraphs st) srcs acc = acc" for srcs acc
  proof (induction srcs arbitrary: acc)
    case Nil
    then show ?case by simp
  next
    case (Cons source rest)
    obtain m S where acc: "acc = (m, S)" by (cases acc)
    have "scan_paragraphs U [] source (dict_get (source_paragraphs st) source []) (m, S) = (m, S)"
      by (intro scan_paragraphs_no_match) simp
    with Cons.IH acc show ?case by simp
  qed
  with e show m: "matching_paragraphs U st = []" by (simp add: matching_paragraphs_def)
  then show "output_area (update_output U st) = []"
    by (simp add: update_output_def build_result_text_with_sources_def)
next
  assume "\<forall>k\<in>set (split_separators U raw). strip U k = []"
  then show "parse_keywords U raw = []"
    by (simp add: parse_keywords_def filter_empty_conv)
qed

theorem matching_paragraphs_blank_keywords_witness:
  "parse_keywords ascii_only (ascii '', ,  ,'') = [] \<and>
   matching_paragraphs ascii_only
     (two_sources\<lparr>keyword_list := parse_keywords ascii_only (ascii '', ,  ,'')\<rparr>) = [] \<and>
   tokenized ascii_only (process_click ascii_only failing_fetch initial_shell)"
proof -
  let ?st = "two_sources\<lparr>keyword_list := parse_keywords ascii_only (ascii '', ,  ,'')\<rparr>"
  note t = matching_paragraphs_blank_keywords[of ascii_only ?st failing_fetch "ascii '', ,  ,''"]
  have r: "\<forall>k\<in>set (split_separators ascii_only (ascii '', ,  ,'')). strip ascii_only k = []"
    by code_simp
  with t have p: "parse_keywords ascii_only (ascii '', ,  ,'') = []" by blast
  then have h: "tokenized ascii_only ?st \<and> (\<forall>k\<in>set (keyword_list ?st). strip ascii_only k = [])"
    by (simp add: tokenized_def)
  with t have m: "matching_paragraphs ascii_only ?st = []" by blast
  note t0 = matching_paragraphs_blank_keywords[of ascii_only initial_shell failing_fetch "[]"]
  then have "tokenized ascii_only (process_click ascii_only failing_fetch initial_shell)" by blast
  with p m show ?thesis by blast
qed

section \<open>Submitting\<close>



text \<open>
  The validations of \<^verbatim>\<open>process_click\<close>: with no address and \<^verbatim>\<open>file_picker.result\<close> still
  \<open>None\<close>, or with an empty keyword field, only the notification changes.
\<close>

lemma process_click_validation:
  assumes "(strip U (url_field inp) = [] \<and> file_picker_result inp = None) \<or>
           strip U (keywords_field inp) = []"
  shows "process_click U inp st = st\<lparr>snack_bar := Some podaj_url\<rparr> \<or>
         process_click U inp st = st\<lparr>snack_bar := Some podaj_slowo\<rparr>"
  using assms by (auto simp: process_click_def Let_def)

text \<open>
  C7 fails once the file dialog has been opened and cancelled: \<^verbatim>\<open>file_picker.result\<close>
  is then an event without files, the first validation tests the event and not its
  files, and a submit with no address and no file passes it.  From a loaded session
  there is no notification, the sources and checkboxes are cleared, the keyword list
  is replaced and the output is recomputed to the empty text.
\<close>

theorem process_click_cancelled_picker:
  "strip ascii_only (url_field cancelled_picker) = [] \<and>
   file_picker_result cancelled_picker = Some \<lparr>files = None\<rparr> \<and>
   source_paragraphs loaded_shell \<noteq> [] \<and> output_area loaded_shell \<noteq> [] \<and>
   snack_bar (process_click ascii_only cancelled_picker loaded_shell) = None \<and>
   source_paragraphs (process_click ascii_only cancelled_picker loaded_shell) = [] \<and>
   source_checkboxes (process_click ascii_only cancelled_picker loaded_shell) = [] \<and>
   keyword_list (process_click ascii_only cancelled_picker loaded_shell) = [ascii ''forecast''] \<and>
   output_area (process_click ascii_only cancelled_picker loaded_shell) = []"
  by code_simp

section \<open>Exporting\<close>

text \<open>
  C3 fails on the output for one paragraph and the keyword \<open>climate\<close>: the export
  removes the double asterisks of the source header, but the single asterisks that
  \<^verbatim>\<open>bold_keywords\<close> puts around the keyword stay in the paragraph of the document.
\<close>

theorem save_as_docx_keeps_emphasis:
  "build_result_text_with_sources ascii_only
       [(ascii ''URL: u'', ascii ''Climate change affects agriculture.'')] [ascii ''climate'']
     = ascii ''**'' @ zrodlo @ ascii '': URL: u**'' @ [newline, newline] @
       ascii ''*Climate* change affects agriculture.'' @ [newline] \<and>
   save_as_docx ascii_only (build_result_text_with_sources ascii_only
       [(ascii ''URL: u'', ascii ''Climate change affects agriculture.'')] [ascii ''climate''])
     = [zrodlo @ ascii '': URL: u'', ascii ''*Climate* change affects agriculture.'']"
  by code_simp

section \<open>Marking keywords\<close>

text \<open>The occurrences taken by the scan from the left.\<close>

lemma matches_from_stop: "length P \<le> i \<or> K = [] \<Longrightarrow> matches_from U K P i = []"
  by (subst matches_from.simps) simp

lemma matches_from_hit:
  "\<not> (length P \<le> i \<or> K = []) \<Longrightarrow> whole_word_at U K P i \<Longrightarrow>
     matches_from U K P i = i # matches_from U K P (i + length K)"
  by (subst matches_from.simps) simp

lemma matches_from_miss:
  "\<not> (length P \<le> i \<or> K = []) \<Longrightarrow> \<not> whole_word_at U K P i \<Longrightarrow>
     matches_from U K P i = matches_from U K P (Suc i)"
  by (subst matches_from.simps) simp

lemma matches_from_lower: "j \<in> set (matches_from U K P i) \<Longrightarrow> i \<le> j"
proof (induction U K P i rule: matches_from.induct)
  case (1 U K P i)
  show ?case
  proof (cases "length P \<le> i \<or> K = []")
    case True
    with "1.prems" show ?thesis by (simp add: matches_from_stop)
  next
    case False
    show ?thesis
    proof (cases "whole_word_at U K P i")
      case True
      with False "1.prems" have "j = i \<or> j \<in> set (matches_from U K P (i + length K))"
        by (simp add: matches_from_hit)
      then show ?thesis
      proof
        assume "j = i" then show ?thesis by simp
      next
        assume "j \<in> set (matches_from U K P (i + length K))"
        from "1.IH"(1)[OF False True this] show ?thesis by simp
      qed
    next
      case nw: False
      with False "1.prems" have "j \<in> set (matches_from U K P (Suc i))"
        by (simp add: matches_from_miss)
      from "1.IH"(2)[OF False nw this] show ?thesis by simp
    qed
  qed
qed

lemma matches_from_sound: "j \<in> set (matches_from U K P i) \<Longrightarrow> whole_word_at U K P j"
proof (induction U K P i rule: matches_from.induct)
  case (1 U K P i)
  show ?case
  proof (cases "length P \<le> i \<or> K = []")
    case True
    with "1.prems" show ?thesis by (simp add: matches_from_stop)
  next
    case False
    show ?thesis
    proof (cases "whole_word_at U K P i")
      case True
      with False "1.prems" have "j = i \<or> j \<in> set (matches_from U K P (i + length K))"
        by (simp add: matches_from_hit)
      then show ?thesis
      proof
        assume "j = i" with True show ?thesis by simp
      next
        assume "j \<in> set (matches_from U K P (i + length K))"
        from "1.IH"(1)[OF False True this] show ?thesis .
      qed
    next
      case nw: False
      with False "1.prems" have "j \<in> set (matches_from U K P (Suc i))"
        by (simp add: matches_from_miss)
      from "1.IH"(2)[OF False nw this] show ?thesis .
    qed
  qed
qed

lemma matches_from_apart:
  "sorted_wrt (\<lambda>a b. a + length K \<le> b) (matches_from U K P i)"
proof (induction U K P i rule: matches_from.induct)
  case (1 U K P i)
  show ?case
  proof (cases "length P \<le> i \<or> K = []")
    case True
    then show ?thesis by (simp add: matches_from_stop)
  next
    case False
    show ?thesis
    proof (cases "whole_word_at U K P i")
      case True
      have "\<forall>b\<in>set (matches_from U K P (i + length K)). i + length K \<le> b"
        using matches_from_lower by blast
      with "1.IH"(1)[OF False True] show ?thesis
        by (simp add: matches_from_hit[OF False True])
    next
      case nw: False
      with "1.IH"(2)[OF False nw] show ?thesis
        by (simp add: matches_from_miss[OF False nw])
    qed
  qed
qed

lemma matches_from_complete:
  "whole_word_at U K P n \<Longrightarrow> i \<le> n \<Longrightarrow> K \<noteq> [] \<Longrightarrow>
     n \<in> set (matches_from U K P i) \<or>
     (\<exists>j\<in>set (matches_from U K P i). j < n \<and> n < j + length K)"
proof (induction U K P i rule: matches_from.induct)
  case (1 U K P i)
  from "1.prems"(1) have "n + length K \<le> length P" by (simp add: whole_word_at_def occurs_at_def)
  with "1.prems"(3) have nl: "n < length P" by (cases K) auto
  with "1.prems"(2,3) have go: "\<not> (length P \<le> i \<or> K = [])" by simp
  show ?case
  proof (cases "whole_word_at U K P i")
    case True
    then have m: "matches_from U K P i = i # matches_from U K P (i + length K)"
      using go by (simp add: matches_from_hit)
    consider "n = i" | "i < n" "n < i + length K" | "i + length K \<le> n"
      using "1.prems"(2) by linarith
    then show ?thesis
    proof cases
      case 1
      then show ?thesis unfolding m by simp
    next
      case 2
      then show ?thesis unfolding m by auto
    next
      case 3
      from "1.IH"(1)[OF go True "1.prems"(1) 3 "1.prems"(3)] show ?thesis unfolding m by auto
    qed
  next
    case False
    then have m: "matches_from U K P i = matches_from U K P (Suc i)"
      using go by (simp add: matches_from_miss)
    from False "1.prems"(1) have "n \<noteq> i" by auto
    with "1.prems"(2) have "Suc i \<le> n" by simp
    from "1.IH"(2)[OF go False "1.prems"(1) this "1.prems"(3)] show ?thesis unfolding m .
  qed
qed

lemma insert_marks_cong:
  "(\<And>j. m \<le> j \<Longrightarrow> (j \<in> set S) = (j \<in> set S') \<and> (j \<in> set E) = (j \<in> set E')) \<Longrightarrow>
     insert_marks S E m ys = insert_marks S' E' m ys"
proof (induction ys arbitrary: m)
  case Nil
  from Nil[of m] show ?case by simp
next
  case (Cons y ys)
  have "insert_marks S E (Suc m) ys = insert_marks S' E' (Suc m) ys"
    by (rule Cons.IH) (simp add: Cons.prems)
  with Cons.prems[of m] show ?case by simp
qed

lemma insert_marks_skip:
  "(\<And>j. j \<in> set S \<union> set E \<Longrightarrow> j < i \<or> i + length xs \<le> j) \<Longrightarrow>
     insert_marks S E i (xs @ ys) = xs @ insert_marks S E (i + length xs) ys"
proof (induction xs arbitrary: i)
  case Nil
  then show ?case by simp
next
  case (Cons x xs)
  have a: "i \<notin> set S" "i \<notin> set E" using Cons.prems[of i] by auto
  have "insert_marks S E (Suc i) (xs @ ys) = xs @ insert_marks S E (Suc i + length xs) ys"
  proof (rule Cons.IH)
    fix j assume "j \<in> set S \<union> set E"
    from Cons.prems[OF this] show "j < Suc i \<or> Suc i + length xs \<le> j" by auto
  qed
  with a show ?case by simp
qed

lemma insert_marks_end:
  assumes "i < n" "n \<notin> set E'"
  shows "insert_marks (i # S') (n # E') n ys = star # insert_marks S' E' n ys"
proof (cases ys)
  case Nil
  with assms show ?thesis by simp
next
  case (Cons y ys')
  have "insert_marks (i # S') (n # E') (Suc n) ys' = insert_marks S' E' (Suc n) ys'"
    by (rule insert_marks_cong) (use assms in auto)
  with assms Cons show ?thesis by simp
qed

lemma insert_marks_match:
  assumes "xs \<noteq> []" and s: "\<And>j. j \<in> set S' \<Longrightarrow> i + length xs \<le> j"
      and e: "\<And>j. j \<in> set E' \<Longrightarrow> i + length xs < j"
  shows "insert_marks (i # S') ((i + length xs) # E') i (xs @ ys) =
         star # xs @ star # insert_marks S' E' (i + length xs) ys"
proof -
  from assms(1) obtain x xs' where x: "xs = x # xs'" by (cases xs) auto
  have a: "i \<notin> set ((i + length xs) # E')" using e x by fastforce
  have "insert_marks (i # S') ((i + length xs) # E') (Suc i) (xs' @ ys) =
        xs' @ insert_marks (i # S') ((i + length xs) # E') (Suc i + length xs') ys"
  proof (rule insert_marks_skip)
    fix j assume "j \<in> set (i # S') \<union> set ((i + length xs) # E')"
    then consider "j = i" | "j \<in> set S'" | "j = i + length xs" | "j \<in> set E'" by auto
    then show "j < Suc i \<or> Suc i + length xs' \<le> j"
    proof cases
      case 1 then show ?thesis by simp
    next
      case 2 from s[OF this] show ?thesis by (simp add: x)
    next
      case 3 then show ?thesis by (simp add: x)
    next
      case 4 from e[OF this] show ?thesis by (simp add: x)
    qed
  qed
  then have A: "insert_marks (i # S') ((i + length xs) # E') (Suc i) (xs' @ ys) =
        xs' @ insert_marks (i # S') ((i + length xs) # E') (i + length xs) ys"
    by (simp add: x)
  have B: "insert_marks (i # S') ((i + length xs) # E') (i + length xs) ys =
                 star # insert_marks S' E' (i + length xs) ys"
  proof (rule insert_marks_end)
    show "i < i + length xs" by (simp add: x)
    show "i + length xs \<notin> set E'" using e by blast
  qed
  have "insert_marks (i # S') ((i + length xs) # E') (Suc i) (xs' @ ys) =
        xs' @ star # insert_marks S' E' (i + length xs) ys" by (simp only: A B)
  with a show ?thesis unfolding x by simp
qed

lemma re_sub_bold_marks:
  "K \<noteq> [] \<Longrightarrow> i \<le> length P \<Longrightarrow>
   re_sub_bold U K (if i = 0 then None else Some (P ! (i - 1))) (drop i P) =
   insert_marks (matches_from U K P i) (map (\<lambda>j. j + length K) (matches_from U K P i)) i (drop i P)"
proof (induction U K P i rule: matches_from.induct)
  case (1 U K P i)
  let ?M = "matches_from U K P"
  let ?E = "\<lambda>n. map (\<lambda>j. j + length K) (?M n)"
  let ?prev = "if i = 0 then None else Some (P ! (i - 1))"
  show ?case
  proof (cases "length P \<le> i")
    case True
    then have "drop i P = []" by simp
    moreover have "?M i = []" using True by (simp add: matches_from_stop)
    ultimately show ?thesis by simp
  next
    case False
    then have lt: "i < length P" by simp
    with "1.prems"(1) have go: "\<not> (length P \<le> i \<or> K = [])" by simp
    have d: "drop i P = P ! i # drop (Suc i) P" using lt by (simp add: Cons_nth_drop_Suc)
    have mh: "match_here U K ?prev (P ! i # drop (Suc i) P) = whole_word_at U K P i"
      using match_here_whole_word[OF "1.prems"(1) "1.prems"(2), of U] by (simp only: d)
    from "1.prems"(1) have n: "0 < length K" by simp
    show ?thesis
    proof (cases "whole_word_at U K P i")
      case True
      then have le: "i + length K \<le> length P" by (simp add: whole_word_at_def occurs_at_def)
      have m: "?M i = i # ?M (i + length K)" by (rule matches_from_hit[OF go True])
      have "i + length K \<noteq> 0" using n by linarith
      with "1.IH"(1)[OF go True "1.prems"(1) le]
      have ih: "re_sub_bold U K (Some (P ! (i + length K - 1))) (drop (i + length K) P) =
                insert_marks (?M (i + length K)) (?E (i + length K)) (i + length K) (drop (i + length K) P)"
        by (simp only: if_False)
      let ?xs = "take (length K) (drop i P)"
      have len: "length ?xs = length K" using le by simp
      have xne: "?xs \<noteq> []" using len n by (metis length_greater_0_conv)
      have sp: "drop i P = ?xs @ drop (i + length K) P"
        by (metis append_take_drop_id drop_drop add.commute)
      obtain m where km: "length K = Suc m" using n by (cases "length K") auto
      have "take (Suc m) (drop i P) = P ! i # take m (drop (Suc i) P)" by (subst d) simp
      then have tk: "P ! i # take (length K - 1) (drop (Suc i) P) = ?xs" by (simp add: km)
      have lastc: "last ?xs = P ! (i + length K - 1)"
      proof -
        have "last ?xs = ?xs ! (length K - 1)" using xne len by (simp add: last_conv_nth del: length_take)
        also have "\<dots> = drop i P ! (length K - 1)" using n by simp
        also have "\<dots> = P ! (i + (length K - 1))" using le n by (intro nth_drop) simp
        also have "i + (length K - 1) = i + length K - 1" using n by linarith
        finally show ?thesis .
      qed
      have rest: "drop (length K - 1) (drop (Suc i) P) = drop (i + length K) P"
        by (simp add: km add.commute)
      have lhs: "re_sub_bold U K ?prev (drop i P) =
                 star # ?xs @ star # re_sub_bold U K (Some (P ! (i + length K - 1))) (drop (i + length K) P)"
      proof -
        have "re_sub_bold U K ?prev (P ! i # drop (Suc i) P) =
              [star] @ take (length K) (P ! i # drop (Suc i) P) @ [star] @
              re_sub_bold U K (Some (last (P ! i # take (length K - 1) (drop (Suc i) P))))
                (drop (length K - 1) (drop (Suc i) P))"
          using mh True by (simp only: re_sub_bold.simps if_True)
        then show ?thesis by (simp only: tk lastc rest d[symmetric] append_Cons append_Nil)
      qed
      have low: "\<And>j. j \<in> set (?M (i + length K)) \<Longrightarrow> i + length K \<le> j"
        by (rule matches_from_lower)
      have "insert_marks (i # ?M (i + length K)) ((i + length ?xs) # ?E (i + length K)) i
              (?xs @ drop (i + length K) P) =
            star # ?xs @ star # insert_marks (?M (i + length K)) (?E (i + length K)) (i + length ?xs)
              (drop (i + length K) P)"
      proof (rule insert_marks_match[OF xne])
        fix j assume "j \<in> set (?M (i + length K))"
        from low[OF this] show "i + length ?xs \<le> j" by (simp only: len)
      next
        fix j assume "j \<in> set (?E (i + length K))"
        then obtain j' where j': "j' \<in> set (?M (i + length K))" "j = j' + length K" by auto
        from low[OF j'(1)] j'(2) n have "i + length K < j" by linarith
        then show "i + length ?xs < j" by (simp only: len)
      qed
      then have rhs: "insert_marks (?M i) (?E i) i (drop i P) =
            star # ?xs @ star # insert_marks (?M (i + length K)) (?E (i + length K)) (i + length K)
              (drop (i + length K) P)"
        unfolding len using sp m by simp
      show ?thesis by (simp only: lhs rhs ih)
    next
      case nw: False
      have m: "?M i = ?M (Suc i)" by (rule matches_from_miss[OF go nw])
      from lt have "Suc i \<le> length P" by simp
      from "1.IH"(2)[OF go nw "1.prems"(1) this]
      have ih: "re_sub_bold U K (Some (P ! i)) (drop (Suc i) P) =
                insert_marks (?M (Suc i)) (?E (Suc i)) (Suc i) (drop (Suc i) P)" by simp
      have a: "i \<notin> set (?M (Suc i))" using matches_from_lower[of i U K P "Suc i"] by auto
      have b: "i \<notin> set (?E (Suc i))"
      proof
        assume "i \<in> set (?E (Suc i))"
        then obtain j' where "j' \<in> set (?M (Suc i))" "i = j' + length K" by auto
        with matches_from_lower[of j' U K P "Suc i"] show False by simp
      qed
      have "re_sub_bold U K ?prev (P ! i # drop (Suc i) P) = P ! i # re_sub_bold U K (Some (P ! i)) (drop (Suc i) P)"
        using mh nw by (simp only: re_sub_bold.simps if_False)
      moreover have "insert_marks (?M i) (?E i) i (P ! i # drop (Suc i) P) =
                     P ! i # insert_marks (?M (Suc i)) (?E (Suc i)) (Suc i) (drop (Suc i) P)"
        unfolding m using a b by simp
      ultimately show ?thesis by (simp only: d ih)
    qed
  qed
qed

lemma mark_matches_empty: "mark_matches U [] P = P"
proof -
  have "insert_marks [] [] i s = s" for i s by (induction s arbitrary: i) simp_all
  then show ?thesis by (simp add: mark_matches_def matches_from_stop)
qed

lemma re_sub_bold_mark_matches: "K \<noteq> [] \<Longrightarrow> re_sub_bold U K None P = mark_matches U K P"
  using re_sub_bold_marks[of K 0 P U] by (simp add: mark_matches_def)

lemma bold_keywords_foldl: "bold_keywords U P ks = foldl (\<lambda>t k. mark_matches U k t) P ks"
  by (induction ks arbitrary: P) (simp_all add: mark_matches_empty re_sub_bold_mark_matches)

text \<open>
  C6, amended.  \<^verbatim>\<open>bold_keywords\<close> applies the keywords in the order of the list, each
  to the text that the earlier ones have marked, and an empty keyword changes nothing:
  the text behind a keyword is the text before it with an asterisk put in before and
  behind each occurrence that the scan from the left takes, and with no other change.
  The occurrences taken are whole-word occurrences of the keyword, compared without
  case; they do not overlap; and every whole-word occurrence is taken, or overlaps one
  that begins before it and is taken.
\<close>

theorem bold_keywords_marks:
  "bold_keywords U P ks = foldl (\<lambda>t k. mark_matches U k t) P ks \<and>
   (K \<noteq> [] \<longrightarrow>
      (\<forall>j\<in>set (matches_from U K P 0). whole_word_at U K P j) \<and>
      sorted_wrt (\<lambda>a b. a + length K \<le> b) (matches_from U K P 0) \<and>
      (\<forall>i. whole_word_at U K P i \<longrightarrow>
         i \<in> set (matches_from U K P 0) \<or>
         (\<exists>j\<in>set (matches_from U K P 0). j < i \<and> i < j + length K)))"
proof (intro conjI impI allI ballI)
  show "bold_keywords U P ks = foldl (\<lambda>t k. mark_matches U k t) P ks"
    by (rule bold_keywords_foldl)
next
  fix j assume "j \<in> set (matches_from U K P 0)"
  then show "whole_word_at U K P j" by (rule matches_from_sound)
next
  show "sorted_wrt (\<lambda>a b. a + length K \<le> b) (matches_from U K P 0)"
    by (rule matches_from_apart)
next
  fix i assume "K \<noteq> []" "whole_word_at U K P i"
  then show "i \<in> set (matches_from U K P 0) \<or>
         (\<exists>j\<in>set (matches_from U K P 0). j < i \<and> i < j + length K)"
    using matches_from_complete[of U K P i 0] by simp
qed

theorem bold_keywords_marks_witness:
  "bold_keywords ascii_only (ascii ''Climate change affects agriculture.'') [ascii ''climate'']
     = ascii ''*Climate* change affects agriculture.'' \<and>
   mark_matches ascii_only (ascii ''climate'') (ascii ''Climate change affects agriculture.'')
     = ascii ''*Climate* change affects agriculture.'' \<and>
   matches_from ascii_only (ascii ''climate'') (ascii ''Climate change affects agriculture.'') 0 = [0] \<and>
   whole_word_at ascii_only (ascii ''climate'') (ascii ''Climate change affects agriculture.'') 0"
proof -
  have k: "ascii ''climate'' \<noteq> []" by (simp add: ascii_def)
  have m: "matches_from ascii_only (ascii ''climate'') (ascii ''Climate change affects agriculture.'') 0 = [0]"
    by code_simp
  have b: "bold_keywords ascii_only (ascii ''Climate change affects agriculture.'') [ascii ''climate'']
             = ascii ''*Climate* change affects agriculture.''"
    by code_simp
  note t = bold_keywords_marks[of ascii_only "ascii ''Climate change affects agriculture.''"
      "[ascii ''climate'']" "ascii ''climate''"]
  from t have "bold_keywords ascii_only (ascii ''Climate change affects agriculture.'') [ascii ''climate'']
     = foldl (\<lambda>t k. mark_matches ascii_only k t) (ascii ''Climate change affects agriculture.'')
             [ascii ''climate'']" by (rule conjunct1)
  then have f: "mark_matches ascii_only (ascii ''climate'') (ascii ''Climate change affects agriculture.'')
     = ascii ''*Climate* change affects agriculture.''"
    by (simp only: b foldl.simps)
  from t k have "\<forall>j\<in>set (matches_from ascii_only (ascii ''climate'')
      (ascii ''Climate change affects agriculture.'') 0).
      whole_word_at ascii_only (ascii ''climate'') (ascii ''Climate change affects agriculture.'') j"
    by blast
  then have w: "whole_word_at ascii_only (ascii ''climate'') (ascii ''Climate change affects agriculture.'') 0"
    unfolding m by simp
  from b f m w show ?thesis by (simp only: simp_thms)
qed

text \<open>
  C6, as the specification has it, fails where two occurrences of a keyword overlap:
  \<open>a-a\<close> occurs in \<open>a-a-a\<close> as a whole word at the indices 0 and 2, and the substitution,
  which resumes behind a match, marks the first occurrence only.
\<close>

theorem bold_keywords_overlap_counterexample:
  "whole_word_at ascii_only (ascii ''a-a'') (ascii ''a-a-a'') 0 \<and>
   whole_word_at ascii_only (ascii ''a-a'') (ascii ''a-a-a'') 2 \<and>
   bold_keywords ascii_only (ascii ''a-a-a'') [ascii ''a-a''] = ascii ''*a-a*-a''"
  by code_simp

section \<open>The units of a page\<close>

text \<open>What is needed of the tables: line break and blank are whitespace, \<^verbatim>\<open>. ! ?\<close> are not.\<close>

lemma is_space_newline: "agrees_on_ascii U \<Longrightarrow> is_space U newline"
  by (simp add: agrees_on_ascii_def newline_def ascii_space_def)

lemma is_space_blank: "agrees_on_ascii U \<Longrightarrow> is_space U blank"
  by (simp add: agrees_on_ascii_def blank_def ascii_space_def)

lemma sentence_end_not_space: "agrees_on_ascii U \<Longrightarrow> is_sentence_end c \<Longrightarrow> \<not> is_space U c"
  by (auto simp: agrees_on_ascii_def is_sentence_end_def ascii_def ascii_space_def)

lemma sub_hyphen_newline_keep:
  "\<not> (a = hyphen \<and> cs \<noteq> [] \<and> hd cs = newline) \<Longrightarrow>
     sub_hyphen_newline (a # cs) = a # sub_hyphen_newline cs"
  by (cases cs) auto

lemma sub_hyphen_newline_from:
  "n \<le> length s \<Longrightarrow> \<not> (0 < n \<and> hyphen_break_at s (n - 1)) \<Longrightarrow>
     sub_hyphen_newline (drop n s) = map (nth s) (filter (outside_hyphen_breaks s) [n..<length s])"
proof (induction "length s - n" arbitrary: n rule: less_induct)
  case less
  show ?case
  proof (cases "n = length s")
    case True
    then show ?thesis by simp
  next
    case False
    with less.prems(1) have lt: "n < length s" by simp
    have d: "drop n s = s ! n # drop (Suc n) s" using lt by (simp add: Cons_nth_drop_Suc)
    have u: "[n..<length s] = n # [Suc n..<length s]" using lt by (simp add: upt_conv_Cons)
    show ?thesis
    proof (cases "hyphen_break_at s n")
      case True
      then have lt2: "Suc n < length s" and h: "s ! n = hyphen" and nl: "s ! Suc n = newline"
        by (simp_all add: hyphen_break_at_def)
      have d2: "drop (Suc n) s = s ! Suc n # drop (Suc (Suc n)) s"
        using lt2 by (simp add: Cons_nth_drop_Suc)
      have u2: "[Suc n..<length s] = Suc n # [Suc (Suc n)..<length s]"
        using lt2 by (simp add: upt_conv_Cons)
      have nb: "\<not> hyphen_break_at s (Suc n)"
        using nl by (simp add: hyphen_break_at_def hyphen_def newline_def)
      have k1: "\<not> outside_hyphen_breaks s n" using True by (simp add: outside_hyphen_breaks_def)
      have k2: "\<not> outside_hyphen_breaks s (Suc n)" using True by (simp add: outside_hyphen_breaks_def)
      have "sub_hyphen_newline (drop (Suc (Suc n)) s) =
            map (nth s) (filter (outside_hyphen_breaks s) [Suc (Suc n)..<length s])"
      proof (rule less.hyps)
        show "length s - Suc (Suc n) < length s - n" using lt2 by linarith
        show "Suc (Suc n) \<le> length s" using lt2 by simp
        show "\<not> (0 < Suc (Suc n) \<and> hyphen_break_at s (Suc (Suc n) - 1))" using nb by simp
      qed
      moreover have "sub_hyphen_newline (drop n s) = sub_hyphen_newline (drop (Suc (Suc n)) s)"
        by (subst d, subst d2) (simp add: h nl)
      ultimately show ?thesis by (simp only: u u2 filter.simps k1 k2 if_False)
    next
      case nb: False
      have k: "outside_hyphen_breaks s n"
        using nb less.prems(2) by (simp add: outside_hyphen_breaks_def)
      have "\<not> (s ! n = hyphen \<and> drop (Suc n) s \<noteq> [] \<and> hd (drop (Suc n) s) = newline)"
        using nb by (auto simp: hyphen_break_at_def hd_drop_conv_nth)
      then have "sub_hyphen_newline (drop n s) = s ! n # sub_hyphen_newline (drop (Suc n) s)"
        by (subst d) (rule sub_hyphen_newline_keep)
      moreover have "sub_hyphen_newline (drop (Suc n) s) =
            map (nth s) (filter (outside_hyphen_breaks s) [Suc n..<length s])"
      proof (rule less.hyps)
        show "length s - Suc n < length s - n" using lt by linarith
        show "Suc n \<le> length s" using lt by simp
        show "\<not> (0 < Suc n \<and> hyphen_break_at s (Suc n - 1))" using nb by simp
      qed
      ultimately show ?thesis by (simp only: u filter.simps k if_True list.map)
    qed
  qed
qed

lemma sub_hyphen_newline_breaks: "sub_hyphen_newline s = remove_hyphen_breaks s"
  using sub_hyphen_newline_from[of 0 s] by (simp add: remove_hyphen_breaks_def)

lemma sub_newlines_empty: "(sub_newlines s = []) = (s = [])"
  by (cases s) auto

lemma sub_newlines_append:
  "t = [] \<or> hd t \<noteq> newline \<Longrightarrow> sub_newlines (s @ t) = sub_newlines s @ sub_newlines t"
proof (induction s rule: sub_newlines.induct)
  case 1
  then show ?case by simp
next
  case (2 c cs)
  show ?case
  proof (cases "c = newline")
    case True
    show ?thesis
    proof (cases "\<forall>d\<in>set cs. d = newline")
      case all: True
      then have a: "dropWhile (\<lambda>d. d = newline) cs = []" by simp
      have "dropWhile (\<lambda>d. d = newline) t = t" using "2.prems" by (cases t) auto
      with all have b: "dropWhile (\<lambda>d. d = newline) (cs @ t) = t" by (simp add: dropWhile_append)
      from True show ?thesis by (simp add: a b)
    next
      case nall: False
      then have b: "dropWhile (\<lambda>d. d = newline) (cs @ t) = dropWhile (\<lambda>d. d = newline) cs @ t"
        by (auto simp: dropWhile_append)
      from "2.IH"(1)[OF True "2.prems"] True show ?thesis by (simp add: b)
    qed
  next
    case False
    with "2.IH"(2)[OF False "2.prems"] show ?thesis by simp
  qed
qed

lemma sub_newlines_set: "set (sub_newlines s) \<subseteq> insert blank (set s)"
proof (induction s rule: sub_newlines.induct)
  case 1
  then show ?case by simp
next
  case (2 c cs)
  show ?case
  proof (cases "c = newline")
    case True
    have "set (dropWhile (\<lambda>d. d = newline) cs) \<subseteq> set cs" by (rule set_dropWhileD[THEN subsetI])
    with "2.IH"(1)[OF True] True show ?thesis by auto
  next
    case False
    with "2.IH"(2)[OF False] show ?thesis by auto
  qed
qed

lemma sub_newlines_long:
  "2 \<le> length s \<Longrightarrow> 2 \<le> length (sub_newlines s) \<or> sub_newlines s = [blank]"
proof -
  assume "2 \<le> length s"
  then obtain a b zs where s: "s = a # b # zs" by (cases s; cases "tl s") auto
  show ?thesis
  proof (cases "a = newline")
    case True
    show ?thesis
    proof (cases "dropWhile (\<lambda>d. d = newline) (b # zs) = []")
      case e: True
      with True show ?thesis unfolding s by (simp only: sub_newlines.simps if_True) simp
    next
      case ne: False
      then have "sub_newlines (dropWhile (\<lambda>d. d = newline) (b # zs)) \<noteq> []"
        using sub_newlines_empty by blast
      then have "1 \<le> length (sub_newlines (dropWhile (\<lambda>d. d = newline) (b # zs)))"
        by (cases "sub_newlines (dropWhile (\<lambda>d. d = newline) (b # zs))") simp_all
      with True show ?thesis unfolding s by (simp only: sub_newlines.simps if_True) simp
    qed
  next
    case False
    have "sub_newlines (b # zs) \<noteq> []" by (simp only: sub_newlines_empty) simp
    then have "1 \<le> length (sub_newlines (b # zs))" by (cases "sub_newlines (b # zs)") simp_all
    with False show ?thesis unfolding s by (simp only: sub_newlines.simps if_False) simp
  qed
qed

lemma sub_newlines_head: "c \<noteq> newline \<Longrightarrow> sub_newlines (c # cs) = c # sub_newlines cs"
  by simp

lemma sub_spaces_run:
  assumes "r \<noteq> []" "\<forall>c\<in>set r. is_space U c" "t = [] \<or> \<not> is_space U (hd t)"
  shows "sub_spaces U (r @ t) = (if 2 \<le> length r then [blank] else r) @ sub_spaces U t"
proof -
  from assms(1) obtain a r' where r: "r = a # r'" by (cases r) auto
  show ?thesis
  proof (cases r')
    case Nil
    show ?thesis
    proof (cases t)
      case tn: Nil
      then show ?thesis by (simp add: r Nil)
    next
      case (Cons d ds)
      with assms(3) have "\<not> is_space U d" by simp
      then show ?thesis by (simp add: r Nil Cons)
    qed
  next
    case (Cons b r'')
    have dt: "dropWhile (is_space U) t = t" using assms(3) by (cases t) auto
    have "\<forall>c\<in>set r''. is_space U c" using assms(2) by (simp add: r Cons)
    then have "dropWhile (is_space U) (r'' @ t) = t" by (simp add: dropWhile_append dt)
    moreover have "is_space U a \<and> is_space U b" using assms(2) by (simp add: r Cons)
    ultimately show ?thesis by (simp add: r Cons)
  qed
qed

lemma sub_spaces_head:
  "\<not> is_space U c \<Longrightarrow> sub_spaces U (c # cs) = c # sub_spaces U cs"
  by (cases cs) auto

lemma collapse_runs_eq:
  "agrees_on_ascii U \<Longrightarrow> sub_spaces U (sub_newlines s) = collapse_runs U s"
proof (induction U s rule: collapse_runs.induct)
  case (1 U)
  then show ?case by simp
next
  case (2 U c cs)
  note nl = is_space_newline[OF "2.prems"] and bl = is_space_blank[OF "2.prems"]
  show ?case
  proof (cases "is_space U c")
    case False
    with nl have "c \<noteq> newline" by auto
    then have "sub_spaces U (sub_newlines (c # cs)) = c # sub_spaces U (sub_newlines cs)"
      using False by (simp add: sub_spaces_head)
    with "2.IH"(2)[OF False "2.prems"] False show ?thesis by simp
  next
    case True
    define r where "r = c # takeWhile (is_space U) cs"
    define t where "t = dropWhile (is_space U) cs"
    have s: "c # cs = r @ t" by (simp add: r_def t_def)
    have t0: "t = [] \<or> \<not> is_space U (hd t)" unfolding t_def by (metis hd_dropWhile)
    with nl have t1: "t = [] \<or> hd t \<noteq> newline" by auto
    have N: "sub_newlines (c # cs) = sub_newlines r @ sub_newlines t"
      unfolding s by (rule sub_newlines_append[OF t1])
    have rs: "\<forall>x\<in>set r. is_space U x"
      using True unfolding r_def by (auto dest: set_takeWhileD)
    have r1: "sub_newlines r \<noteq> []" using sub_newlines_empty[of r] by (simp add: r_def)
    have r2: "\<forall>x\<in>set (sub_newlines r). is_space U x"
      using sub_newlines_set[of r] rs bl by auto
    have t2: "sub_newlines t = [] \<or> \<not> is_space U (hd (sub_newlines t))"
    proof (cases t)
      case Nil
      then show ?thesis by simp
    next
      case (Cons d ds)
      with t0 t1 show ?thesis by simp
    qed
    have S: "sub_spaces U (sub_newlines r @ sub_newlines t) =
             (if 2 \<le> length (sub_newlines r) then [blank] else sub_newlines r) @
             sub_spaces U (sub_newlines t)"
      by (rule sub_spaces_run[OF r1 r2 t2])
    have C: "(if 2 \<le> length (sub_newlines r) then [blank] else sub_newlines r) = collapse_run r"
    proof (cases "takeWhile (is_space U) cs = []")
      case e: True
      then have r: "r = [c]" by (simp add: r_def)
      show ?thesis unfolding r by (simp add: collapse_run_def)
    next
      case ne: False
      then have "2 \<le> length r" unfolding r_def by (cases "takeWhile (is_space U) cs") simp_all
      with sub_newlines_long[of r] show ?thesis by (auto simp: collapse_run_def)
    qed
    have I: "sub_spaces U (sub_newlines t) = collapse_runs U t"
      using "2.IH"(1)[OF True "2.prems"] by (simp only: t_def)
    have "collapse_runs U (c # cs) = collapse_run r @ collapse_runs U t"
      using True by (simp add: r_def t_def)
    then show ?thesis by (simp only: N S C I)
  qed
qed

lemma split_sentences_nonempty: "split_sentences U prev s \<noteq> []"
proof (cases s)
  case Nil
  then show ?thesis by simp
next
  case (Cons c cs)
  then show ?thesis by (cases "split_sentences U (Some c) cs") auto
qed

lemma split_sentences_cut:
  "(\<forall>p\<in>set (split_sentences U prev s). \<not> adjacent (\<lambda>a b. is_sentence_end a \<and> is_space U b) p) \<and>
   (hd (split_sentences U prev s) \<noteq> [] \<longrightarrow>
      \<not> (after_sentence_end prev \<and> is_space U (hd (hd (split_sentences U prev s)))))"
proof (induction U prev s rule: split_sentences.induct)
  case (1 U prev)
  then show ?case by simp
next
  case (2 U prev c cs)
  let ?ES = "\<lambda>a b. is_sentence_end a \<and> is_space U b"
  show ?case
  proof (cases "is_space U c \<and> after_sentence_end prev")
    case True
    with "2.IH"(1)[OF True] show ?thesis by simp
  next
    case False
    let ?qs = "split_sentences U (Some c) cs"
    from False have eq: "split_sentences U prev (c # cs) = cons_first c ?qs" by auto
    obtain q qs' where qs: "?qs = q # qs'"
      using split_sentences_nonempty[of U "Some c" cs] by (cases ?qs) auto
    from "2.IH"(2)[OF False] qs have ih1: "\<forall>p\<in>set (q # qs'). \<not> adjacent ?ES p"
      and ih2: "q \<noteq> [] \<longrightarrow> \<not> (is_sentence_end c \<and> is_space U (hd q))"
      by (auto simp: after_sentence_end_def)
    have "\<not> adjacent ?ES (c # q)"
    proof (cases q)
      case Nil
      then show ?thesis by simp
    next
      case (Cons x xs)
      with ih1 ih2 show ?thesis by simp
    qed
    with ih1 False show ?thesis unfolding eq qs by auto
  qed
qed

lemma split_sentences_cuts:
  "agrees_on_ascii U \<Longrightarrow>
   \<exists>cuts rest.
     split_sentences U prev s = map fst cuts @ [rest] \<and>
     s = concat (map (\<lambda>(p, w). p @ w) cuts) @ rest \<and>
     (\<forall>x\<in>set cuts. snd x \<noteq> [] \<and> (\<forall>c\<in>set (snd x). is_space U c)) \<and>
     (\<forall>x\<in>set (tl cuts). fst x \<noteq> [] \<and> is_sentence_end (last (fst x))) \<and>
     (cuts \<noteq> [] \<longrightarrow> (if fst (hd cuts) = [] then after_sentence_end prev
                        else is_sentence_end (last (fst (hd cuts))))) \<and>
     (\<forall>q\<in>set (tl (map fst cuts @ [rest])). q = [] \<or> \<not> is_space U (hd q))"
proof (induction U prev s rule: split_sentences.induct)
  case (1 U prev)
  show ?case by (rule exI[of _ "[]"], rule exI[of _ "[]"]) simp
next
  case (2 U prev c cs)
  show ?case
  proof (cases "is_space U c \<and> after_sentence_end prev")
    case True
    define run where "run = c # takeWhile (is_space U) cs"
    define r where "r = dropWhile (is_space U) cs"
    define sp where "sp = last run"
    have eq: "split_sentences U prev (c # cs) = [] # split_sentences U (Some sp) r"
      using True by (simp add: run_def r_def sp_def)
    have runsp: "\<forall>x\<in>set run. is_space U x"
      using True unfolding run_def by (auto dest: set_takeWhileD)
    have "sp \<in> set run" unfolding sp_def by (rule last_in_set) (simp add: run_def)
    with runsp have "is_space U sp" by blast
    then have nse: "\<not> after_sentence_end (Some sp)"
      using sentence_end_not_space[OF "2.prems"] by (auto simp: after_sentence_end_def)
    have r0: "r = [] \<or> \<not> is_space U (hd r)" unfolding r_def by (metis hd_dropWhile)
    have whole: "c # cs = run @ r" by (simp add: run_def r_def)
    from "2.IH"(1)[OF True "2.prems"] obtain cuts rest where
      a: "split_sentences U (Some sp) r = map fst cuts @ [rest]" and
      b: "r = concat (map (\<lambda>(p, w). p @ w) cuts) @ rest" and
      c3: "\<forall>x\<in>set cuts. snd x \<noteq> [] \<and> (\<forall>c\<in>set (snd x). is_space U c)" and
      c4: "\<forall>x\<in>set (tl cuts). fst x \<noteq> [] \<and> is_sentence_end (last (fst x))" and
      c5: "cuts \<noteq> [] \<longrightarrow> (if fst (hd cuts) = [] then after_sentence_end (Some sp)
                        else is_sentence_end (last (fst (hd cuts))))" and
      c6: "\<forall>q\<in>set (tl (map fst cuts @ [rest])). q = [] \<or> \<not> is_space U (hd q)"
      unfolding run_def[symmetric] r_def[symmetric] sp_def[symmetric] by (elim exE conjE)
    have all4: "\<forall>x\<in>set cuts. fst x \<noteq> [] \<and> is_sentence_end (last (fst x))"
    proof (cases cuts)
      case Nil
      then show ?thesis by simp
    next
      case (Cons x xs)
      with c5 nse have "fst x \<noteq> [] \<and> is_sentence_end (last (fst x))"
        by (cases "fst x = []") simp_all
      with c4 Cons show ?thesis by simp
    qed
    have first: "hd (map fst cuts @ [rest]) = [] \<or> \<not> is_space U (hd (hd (map fst cuts @ [rest])))"
    proof (cases cuts)
      case Nil
      with b r0 show ?thesis by simp
    next
      case (Cons x xs)
      obtain p w where x: "x = (p, w)" by (cases x)
      from b Cons x have "r = p @ (w @ concat (map (\<lambda>(p, w). p @ w) xs) @ rest)" by simp
      with r0 have "p = [] \<or> \<not> is_space U (hd p)" by (cases p) auto
      with Cons x show ?thesis by simp
    qed
    have all6: "\<forall>q\<in>set (map fst cuts @ [rest]). q = [] \<or> \<not> is_space U (hd q)"
    proof
      fix q assume q: "q \<in> set (map fst cuts @ [rest])"
      have ne: "map fst cuts @ [rest] \<noteq> []" by simp
      from q ne have "q = hd (map fst cuts @ [rest]) \<or> q \<in> set (tl (map fst cuts @ [rest]))"
        by (cases "map fst cuts @ [rest]") auto
      with first c6 show "q = [] \<or> \<not> is_space U (hd q)" by blast
    qed
    let ?cuts = "([], run) # cuts"
    have g1: "split_sentences U prev (c # cs) = map fst ?cuts @ [rest]" using eq a by simp
    have g2: "c # cs = concat (map (\<lambda>(p, w). p @ w) ?cuts) @ rest" using whole b by simp
    have g3: "\<forall>x\<in>set ?cuts. snd x \<noteq> [] \<and> (\<forall>c\<in>set (snd x). is_space U c)"
      using c3 runsp by (simp add: run_def)
    have g4: "\<forall>x\<in>set (tl ?cuts). fst x \<noteq> [] \<and> is_sentence_end (last (fst x))"
      using all4 by simp
    have g5: "?cuts \<noteq> [] \<longrightarrow> (if fst (hd ?cuts) = [] then after_sentence_end prev
                        else is_sentence_end (last (fst (hd ?cuts))))"
      using True by simp
    have g6: "\<forall>q\<in>set (tl (map fst ?cuts @ [rest])). q = [] \<or> \<not> is_space U (hd q)"
      using all6 by simp
    from g1 g2 g3 g4 g5 g6 show ?thesis by blast
  next
    case False
    have eq: "split_sentences U prev (c # cs) = cons_first c (split_sentences U (Some c) cs)"
      using False by auto
    from "2.IH"(2)[OF False "2.prems"] obtain cuts rest where
      a: "split_sentences U (Some c) cs = map fst cuts @ [rest]" and
      b: "cs = concat (map (\<lambda>(p, w). p @ w) cuts) @ rest" and
      c3: "\<forall>x\<in>set cuts. snd x \<noteq> [] \<and> (\<forall>c\<in>set (snd x). is_space U c)" and
      c4: "\<forall>x\<in>set (tl cuts). fst x \<noteq> [] \<and> is_sentence_end (last (fst x))" and
      c5: "cuts \<noteq> [] \<longrightarrow> (if fst (hd cuts) = [] then after_sentence_end (Some c)
                        else is_sentence_end (last (fst (hd cuts))))" and
      c6: "\<forall>q\<in>set (tl (map fst cuts @ [rest])). q = [] \<or> \<not> is_space U (hd q)"
      by (elim exE conjE)
    show ?thesis
    proof (cases cuts)
      case Nil
      let ?cuts = "[] :: (ustring \<times> ustring) list"
      have g1: "split_sentences U prev (c # cs) = map fst ?cuts @ [c # rest]"
        using eq a Nil by simp
      have g2: "c # cs = concat (map (\<lambda>(p, w). p @ w) ?cuts) @ (c # rest)" using b Nil by simp
      have g3: "\<forall>x\<in>set ?cuts. snd x \<noteq> [] \<and> (\<forall>c\<in>set (snd x). is_space U c)" by simp
      have g4: "\<forall>x\<in>set (tl ?cuts). fst x \<noteq> [] \<and> is_sentence_end (last (fst x))" by simp
      have g5: "?cuts \<noteq> [] \<longrightarrow> (if fst (hd ?cuts) = [] then after_sentence_end prev
                        else is_sentence_end (last (fst (hd ?cuts))))" by simp
      have g6: "\<forall>q\<in>set (tl (map fst ?cuts @ [c # rest])). q = [] \<or> \<not> is_space U (hd q)" by simp
      from g1 g2 g3 g4 g5 g6 show ?thesis by blast
    next
      case (Cons x xs)
      obtain p w where x: "x = (p, w)" by (cases x)
      let ?cuts = "(c # p, w) # xs"
      have g1: "split_sentences U prev (c # cs) = map fst ?cuts @ [rest]"
        using eq a Cons x by simp
      have g2: "c # cs = concat (map (\<lambda>(p, w). p @ w) ?cuts) @ rest" using b Cons x by simp
      have g3: "\<forall>x\<in>set ?cuts. snd x \<noteq> [] \<and> (\<forall>c\<in>set (snd x). is_space U c)"
        using c3 Cons x by simp
      have g4: "\<forall>x\<in>set (tl ?cuts). fst x \<noteq> [] \<and> is_sentence_end (last (fst x))"
        using c4 Cons by simp
      have "is_sentence_end (last (c # p))"
        using c5 Cons x by (cases "p = []") (simp_all add: after_sentence_end_def)
      then have g5: "?cuts \<noteq> [] \<longrightarrow> (if fst (hd ?cuts) = [] then after_sentence_end prev
                        else is_sentence_end (last (fst (hd ?cuts))))" by simp
      have g6: "\<forall>q\<in>set (tl (map fst ?cuts @ [rest])). q = [] \<or> \<not> is_space U (hd q)"
        using c6 Cons x by simp
      from g1 g2 g3 g4 g5 g6 show ?thesis by blast
    qed
  qed
qed

lemma split_sentences_cut_at_sentence_ends:
  assumes "agrees_on_ascii U"
  shows "\<exists>cuts rest. cut_at_sentence_ends U s cuts rest \<and>
           split_sentences U None s = map fst cuts @ [rest]"
proof -
  from split_sentences_cuts[OF assms, of None s] obtain cuts rest where
    a: "split_sentences U None s = map fst cuts @ [rest]" and
    b: "s = concat (map (\<lambda>(p, w). p @ w) cuts) @ rest" and
    c3: "\<forall>x\<in>set cuts. snd x \<noteq> [] \<and> (\<forall>c\<in>set (snd x). is_space U c)" and
    c4: "\<forall>x\<in>set (tl cuts). fst x \<noteq> [] \<and> is_sentence_end (last (fst x))" and
    c5: "cuts \<noteq> [] \<longrightarrow> (if fst (hd cuts) = [] then after_sentence_end None
                      else is_sentence_end (last (fst (hd cuts))))" and
    c6: "\<forall>q\<in>set (tl (map fst cuts @ [rest])). q = [] \<or> \<not> is_space U (hd q)"
    by (elim exE conjE)
  have all4: "\<forall>x\<in>set cuts. fst x \<noteq> [] \<and> is_sentence_end (last (fst x))"
  proof (cases cuts)
    case Nil
    then show ?thesis by simp
  next
    case (Cons x xs)
    with c5 have "fst x \<noteq> [] \<and> is_sentence_end (last (fst x))"
      by (cases "fst x = []") (simp_all add: after_sentence_end_def)
    with c4 Cons show ?thesis by simp
  qed
  have p2: "list_all (\<lambda>(p, w). p \<noteq> [] \<and> is_sentence_end (last p) \<and> w \<noteq> [] \<and> list_all (is_space U) w) cuts"
    using all4 c3 by (auto simp: list_all_iff)
  have p3: "list_all (\<lambda>p. \<not> adjacent (\<lambda>a b. is_sentence_end a \<and> is_space U b) p) (map fst cuts @ [rest])"
    using split_sentences_cut[of U None s] unfolding a list_all_iff by blast
  have p4: "list_all (\<lambda>p. p = [] \<or> \<not> is_space U (hd p)) (tl (map fst cuts @ [rest]))"
    using c6 unfolding list_all_iff by blast
  from b p2 p3 p4 have "cut_at_sentence_ends U s cuts rest"
    unfolding cut_at_sentence_ends_def by blast
  with a show ?thesis by blast
qed

text \<open>A text is cut at its sentence ends in one way only.\<close>

lemma adjacent_append1: "adjacent R xs \<Longrightarrow> adjacent R (xs @ ys)"
  by (induction R xs rule: adjacent.induct) auto

lemma adjacent_append2: "adjacent R ys \<Longrightarrow> adjacent R (xs @ ys)"
proof (induction xs)
  case Nil
  then show ?case by simp
next
  case (Cons x xs)
  then show ?case by (cases "xs @ ys") auto
qed

lemma adjacent_join: "xs \<noteq> [] \<Longrightarrow> ys \<noteq> [] \<Longrightarrow> R (last xs) (hd ys) \<Longrightarrow> adjacent R (xs @ ys)"
proof (induction xs)
  case Nil
  then show ?case by simp
next
  case (Cons x xs)
  show ?case
  proof (cases xs)
    case Nil
    with Cons.prems show ?thesis by (cases ys) auto
  next
    case (Cons a as)
    with Cons.IH Cons.prems have "adjacent R (xs @ ys)" by simp
    then show ?thesis using adjacent_append2[of R "xs @ ys" "[x]"] by simp
  qed
qed

lemma takeWhile_run:
  "\<forall>x\<in>set w. P x \<Longrightarrow> X = [] \<or> \<not> P (hd X) \<Longrightarrow> takeWhile P (w @ X) = w"
  by (cases X) (auto simp: takeWhile_append)

lemma cut_at_sentence_ends_Nil:
  "cut_at_sentence_ends U t [] rest =
     (t = rest \<and> \<not> adjacent (\<lambda>a b. is_sentence_end a \<and> is_space U b) rest)"
  by (auto simp: cut_at_sentence_ends_def)

lemma cut_at_sentence_ends_Cons:
  assumes "cut_at_sentence_ends U t ((p, w) # cs) rest"
  obtains X where "t = p @ w @ X" "p \<noteq> []" "is_sentence_end (last p)" "w \<noteq> []"
    "\<forall>c\<in>set w. is_space U c" "\<not> adjacent (\<lambda>a b. is_sentence_end a \<and> is_space U b) p"
    "X = [] \<or> \<not> is_space U (hd X)" "cut_at_sentence_ends U X cs rest"
proof -
  let ?X = "concat (map (\<lambda>(p, w). p @ w) cs) @ rest"
  note a = assms[unfolded cut_at_sentence_ends_def]
  from a have t: "t = p @ w @ ?X" by simp
  from a have p: "p \<noteq> []" "is_sentence_end (last p)" "w \<noteq> []" "\<forall>c\<in>set w. is_space U c"
    by (simp_all add: list_all_iff)
  from a have np: "\<not> adjacent (\<lambda>a b. is_sentence_end a \<and> is_space U b) p" by simp
  from a have pieces: "list_all (\<lambda>p. p = [] \<or> \<not> is_space U (hd p)) (map fst cs @ [rest])" by simp
  from a have sub: "cut_at_sentence_ends U ?X cs rest"
    unfolding cut_at_sentence_ends_def by (cases cs) auto
  have start: "?X = [] \<or> \<not> is_space U (hd ?X)"
  proof (cases cs)
    case Nil
    with pieces show ?thesis by simp
  next
    case (Cons x xs)
    obtain p2 w2 where x: "x = (p2, w2)" by (cases x)
    from a Cons x have "p2 \<noteq> []" by simp
    moreover from pieces Cons x have "p2 = [] \<or> \<not> is_space U (hd p2)" by simp
    ultimately show ?thesis using Cons x by simp
  qed
  from t p np start sub show ?thesis by (rule that)
qed

lemma cut_at_sentence_ends_unique:
  "cut_at_sentence_ends U t cuts rest \<Longrightarrow> cut_at_sentence_ends U t cuts' rest' \<Longrightarrow>
     cuts = cuts' \<and> rest = rest'"
proof (induction cuts arbitrary: t cuts')
  case Nil
  show ?case
  proof (cases cuts')
    case n: Nil
    with Nil show ?thesis by (simp add: cut_at_sentence_ends_Nil)
  next
    case (Cons x xs)
    obtain p w where x: "x = (p, w)" by (cases x)
    from Nil.prems(2)[unfolded Cons x] obtain X where
      t: "t = p @ w @ X" and p: "p \<noteq> []" "is_sentence_end (last p)" "w \<noteq> []" "\<forall>c\<in>set w. is_space U c"
      by (rule cut_at_sentence_ends_Cons)
    from p have "is_space U (hd w)" by (cases w) auto
    with p have "adjacent (\<lambda>a b. is_sentence_end a \<and> is_space U b) (p @ w)"
      by (intro adjacent_join) auto
    then have "adjacent (\<lambda>a b. is_sentence_end a \<and> is_space U b) t"
      unfolding t using adjacent_append1[of _ "p @ w" X] by simp
    with Nil.prems(1) show ?thesis by (simp add: cut_at_sentence_ends_Nil)
  qed
next
  case (Cons x cs)
  let ?ES = "\<lambda>a b. is_sentence_end a \<and> is_space U b"
  obtain p w where x: "x = (p, w)" by (cases x)
  from Cons.prems(1)[unfolded x] obtain X where
    t: "t = p @ w @ X" and p: "p \<noteq> []" "is_sentence_end (last p)" "w \<noteq> []" "\<forall>c\<in>set w. is_space U c"
    and np: "\<not> adjacent ?ES p" and sx: "X = [] \<or> \<not> is_space U (hd X)"
    and sub: "cut_at_sentence_ends U X cs rest"
    by (rule cut_at_sentence_ends_Cons)
  from p have hw: "is_space U (hd w)" by (cases w) auto
  show ?case
  proof (cases cuts')
    case Nil
    from p hw have "adjacent ?ES (p @ w)" by (intro adjacent_join) auto
    then have "adjacent ?ES t" unfolding t using adjacent_append1[of _ "p @ w" X] by simp
    with Cons.prems(2) Nil show ?thesis by (simp add: cut_at_sentence_ends_Nil)
  next
    case c': (Cons x' cs')
    obtain p' w' where x': "x' = (p', w')" by (cases x')
    from Cons.prems(2)[unfolded c' x'] obtain X' where
      t': "t = p' @ w' @ X'" and p': "p' \<noteq> []" "is_sentence_end (last p')" "w' \<noteq> []"
        "\<forall>c\<in>set w'. is_space U c"
      and np': "\<not> adjacent ?ES p'" and sx': "X' = [] \<or> \<not> is_space U (hd X')"
      and sub': "cut_at_sentence_ends U X' cs' rest'"
      by (rule cut_at_sentence_ends_Cons)
    from p' have hw': "is_space U (hd w')" by (cases w') auto
    from t t' have "p @ (w @ X) = p' @ (w' @ X')" by simp
    then obtain z where z: "(p = p' @ z \<and> z @ (w @ X) = w' @ X') \<or> (p @ z = p' \<and> w @ X = z @ (w' @ X'))"
      unfolding append_eq_append_conv2 by blast
    have pp: "p = p'"
    proof (rule ccontr)
      assume ne: "p \<noteq> p'"
      from z show False
      proof
        assume a: "p = p' @ z \<and> z @ (w @ X) = w' @ X'"
        with ne have zne: "z \<noteq> []" by auto
        from a zne p'(3) have "hd z = hd w'" by (cases z; cases w') auto
        with hw' p' zne have "adjacent ?ES (p' @ z)" by (intro adjacent_join) auto
        with a np show False by simp
      next
        assume a: "p @ z = p' \<and> w @ X = z @ (w' @ X')"
        with ne have zne: "z \<noteq> []" by auto
        from a zne p(3) have "hd z = hd w" by (cases z; cases w) auto
        with hw p zne have "adjacent ?ES (p @ z)" by (intro adjacent_join) auto
        with a np' show False by simp
      qed
    qed
    with t t' have wx: "w @ X = w' @ X'" by simp
    have "takeWhile (is_space U) (w @ X) = w" by (rule takeWhile_run[OF p(4) sx])
    moreover have "takeWhile (is_space U) (w' @ X') = w'" by (rule takeWhile_run[OF p'(4) sx'])
    ultimately have ww: "w = w'" using wx by simp
    with wx have "X = X'" by simp
    with sub' have "cut_at_sentence_ends U X cs' rest'" by simp
    from Cons.IH[OF sub this] pp ww show ?thesis by (simp add: x x' c')
  qed
qed

lemma page_pars_collapsed:
  assumes "agrees_on_ascii U"
  shows "page_pars U page =
         map (strip U) (filter (\<lambda>p. strip U p \<noteq> [])
           (split_sentences U None (collapse_runs U (remove_hyphen_breaks (page_text page)))))"
  unfolding page_pars_def Let_def page_text_def[symmetric]
  by (simp only: collapse_runs_eq[OF assms] sub_hyphen_newline_breaks)

text \<open>
  C9, amended.  With tables that are right on the ASCII range, the units of a PDF are
  the units of its pages, in the order of the pages.  The units of a page come from
  the text of the page without the hyphen and the line break of each place where a
  hyphen stands directly before a line break, and with its whitespace collapsed: a run
  of whitespace becomes one space, but a single whitespace character other than a line
  break stays as it is.  This text is cut at each maximal run of whitespace that
  follows one of \<^verbatim>\<open>. ! ?\<close>, which can be done, and in one way only; the pieces are
  stripped of the whitespace around them, the pieces that are then empty are dropped,
  and the others are the units, in their order.  So every unit is non-empty and has
  no whitespace at either end.
\<close>

theorem extract_text_from_pdf_bytes_units:
  assumes "agrees_on_ascii U"
  shows "extract_text_from_pdf_bytes U (Inr pages) = Inr (concat (map (page_pars U) pages)) \<and>
         (\<exists>cuts rest.
            cut_at_sentence_ends U (collapse_runs U (remove_hyphen_breaks (page_text page))) cuts rest) \<and>
         (cut_at_sentence_ends U (collapse_runs U (remove_hyphen_breaks (page_text page))) cuts rest \<longrightarrow>
            page_pars U page = map (strip U) (filter (\<lambda>p. strip U p \<noteq> []) (map fst cuts @ [rest]))) \<and>
         list_all (\<lambda>u. u \<noteq> [] \<and> strip U u = u) (page_pars U page)"
proof -
  let ?t = "collapse_runs U (remove_hyphen_breaks (page_text page))"
  from split_sentences_cut_at_sentence_ends[OF assms, of ?t]
  obtain cuts0 rest0 where
    c: "cut_at_sentence_ends U ?t cuts0 rest0" and
    s: "split_sentences U None ?t = map fst cuts0 @ [rest0]" by blast
  have 1: "extract_text_from_pdf_bytes U (Inr pages) = Inr (concat (map (page_pars U) pages))"
    by (simp add: extract_text_from_pdf_bytes_def)
  from c have 2: "\<exists>cuts rest. cut_at_sentence_ends U ?t cuts rest" by blast
  have 3: "cut_at_sentence_ends U ?t cuts rest \<longrightarrow>
            page_pars U page = map (strip U) (filter (\<lambda>p. strip U p \<noteq> []) (map fst cuts @ [rest]))"
  proof
    assume "cut_at_sentence_ends U ?t cuts rest"
    from cut_at_sentence_ends_unique[OF this c] have "cuts = cuts0" "rest = rest0" by simp_all
    then show "page_pars U page = map (strip U) (filter (\<lambda>p. strip U p \<noteq> []) (map fst cuts @ [rest]))"
      by (simp only: page_pars_collapsed[OF assms] s)
  qed
  have 4: "list_all (\<lambda>u. u \<noteq> [] \<and> strip U u = u) (page_pars U page)"
    unfolding page_pars_def Let_def list_all_iff by (auto simp: strip_idem)
  from 1 2 3 4 show ?thesis by blast
qed

theorem extract_text_from_pdf_bytes_units_witness:
  "extract_text_from_pdf_bytes ascii_only (Inr [Some sample_page, None, Some (ascii ''End'')]) =
     Inr [ascii ''Budget forecast is here.'', ascii ''Next'' @ [9] @ ascii ''one!'', ascii ''Third?'',
          ascii ''End''] \<and>
   collapse_runs ascii_only (remove_hyphen_breaks (page_text (Some sample_page))) =
     ascii ''Budget forecast is here. Next'' @ [9] @ ascii ''one! Third? '' \<and>
   page_pars ascii_only (Some sample_page) =
     [ascii ''Budget forecast is here.'', ascii ''Next'' @ [9] @ ascii ''one!'', ascii ''Third?''] \<and>
   extract_text_from_pdf_bytes with_polish (Inr [Some (ascii ''One.'' @ [160] @ ascii ''Two.'')]) =
     Inr [ascii ''One.'', ascii ''Two.'']"
proof -
  let ?cuts = "[(ascii ''Budget forecast is here.'', ascii '' ''),
                (ascii ''Next'' @ [9] @ ascii ''one!'', ascii '' ''),
                (ascii ''Third?'', ascii '' '')]"
  have h: "agrees_on_ascii ascii_only" by (simp add: agrees_on_ascii_def ascii_only_def)
  have h2: "agrees_on_ascii with_polish"
    by (auto simp: agrees_on_ascii_def with_polish_def polish_letters_def)
  have e2: "concat (map (page_pars with_polish) [Some (ascii ''One.'' @ [160] @ ascii ''Two.'')]) =
            [ascii ''One.'', ascii ''Two.'']"
    by code_simp
  have e: "concat (map (page_pars ascii_only) [Some sample_page, None, Some (ascii ''End'')]) =
           [ascii ''Budget forecast is here.'', ascii ''Next'' @ [9] @ ascii ''one!'', ascii ''Third?'',
            ascii ''End'']"
    by code_simp
  have t: "collapse_runs ascii_only (remove_hyphen_breaks (page_text (Some sample_page))) =
     ascii ''Budget forecast is here. Next'' @ [9] @ ascii ''one! Third? ''"
    by code_simp
  have c: "cut_at_sentence_ends ascii_only
             (collapse_runs ascii_only (remove_hyphen_breaks (page_text (Some sample_page)))) ?cuts []"
    by code_simp
  have m: "map (strip ascii_only) (filter (\<lambda>p. strip ascii_only p \<noteq> []) (map fst ?cuts @ [[]])) =
           [ascii ''Budget forecast is here.'', ascii ''Next'' @ [9] @ ascii ''one!'', ascii ''Third?'']"
    by code_simp
  note inst = extract_text_from_pdf_bytes_units[OF h, of "[Some sample_page, None, Some (ascii ''End'')]"
      "Some sample_page" ?cuts "[]"]
  from inst have 1: "extract_text_from_pdf_bytes ascii_only (Inr [Some sample_page, None, Some (ascii ''End'')]) =
        Inr (concat (map (page_pars ascii_only) [Some sample_page, None, Some (ascii ''End'')]))"
    by (rule conjunct1)
  from inst c have "page_pars ascii_only (Some sample_page) =
       map (strip ascii_only) (filter (\<lambda>p. strip ascii_only p \<noteq> []) (map fst ?cuts @ [[]]))"
    by blast
  then have 2: "page_pars ascii_only (Some sample_page) =
     [ascii ''Budget forecast is here.'', ascii ''Next'' @ [9] @ ascii ''one!'', ascii ''Third?'']"
    by (simp only: m)
  from extract_text_from_pdf_bytes_units[OF h2, of "[Some (ascii ''One.'' @ [160] @ ascii ''Two.'')]" None "[]" "[]"]
  have 3: "extract_text_from_pdf_bytes with_polish (Inr [Some (ascii ''One.'' @ [160] @ ascii ''Two.'')]) =
        Inr (concat (map (page_pars with_polish) [Some (ascii ''One.'' @ [160] @ ascii ''Two.'')]))"
    by (rule conjunct1)
  from 1 2 3 e e2 t show ?thesis by (simp only: simp_thms)
qed

text \<open>
  C9, as the specification has it, fails for a single whitespace character that is not
  a line break: the pattern \<^verbatim>\<open>\s{2,}\<close> needs two characters, so the tab between \<open>a\<close> and
  \<open>b\<close> is not collapsed to a space and stays in the unit.
\<close>

theorem page_pars_lone_tab_counterexample:
  "is_space ascii_only 9 \<and>
   extract_text_from_pdf_bytes ascii_only (Inr [Some (ascii ''a'' @ [9] @ ascii ''b.'')]) =
     Inr [ascii ''a'' @ [9] @ ascii ''b.'']"
  by code_simp

end
